theory Spec2Isabelle
  imports Complex_Main "HOL-Library.AList"
begin

section \<open>Order-flow imbalance: the pipeline of \<open>src/ofi.py\<close>\<close>

text \<open>
  The pipeline works on pandas frames of float64 columns. The model keeps what the
  claims depend on: a missing value (NaN), the two infinities, and finite values.
  Finite arithmetic is exact (type \<open>real\<close>): rounding, overflow to infinity and the sign
  of zero are not modelled.
\<close>

subsection \<open>Cell values\<close>

datatype fl = NaN | NInf | Fin real | PInf

fun fl_neg :: "fl \<Rightarrow> fl" where
  "fl_neg NaN = NaN"
| "fl_neg NInf = PInf"
| "fl_neg PInf = NInf"
| "fl_neg (Fin a) = Fin (- a)"

fun fl_add :: "fl \<Rightarrow> fl \<Rightarrow> fl" where
  "fl_add NaN y = NaN"
| "fl_add x NaN = NaN"
| "fl_add (Fin a) (Fin b) = Fin (a + b)"
| "fl_add PInf NInf = NaN"
| "fl_add NInf PInf = NaN"
| "fl_add PInf y = PInf"
| "fl_add x PInf = PInf"
| "fl_add NInf y = NInf"
| "fl_add x NInf = NInf"

definition fl_sub :: "fl \<Rightarrow> fl \<Rightarrow> fl" where
  "fl_sub x y = fl_add x (fl_neg y)"

text \<open>Division as numpy does it on float64: a finite non-zero value over zero is an
  infinity, zero over zero is NaN, and nothing raises.\<close>

fun fl_div :: "fl \<Rightarrow> fl \<Rightarrow> fl" where
  "fl_div NaN y = NaN"
| "fl_div x NaN = NaN"
| "fl_div (Fin a) (Fin b) =
     (if b \<noteq> 0 then Fin (a / b)
      else if 0 < a then PInf else if a < 0 then NInf else NaN)"
| "fl_div (Fin a) y = Fin 0"
| "fl_div PInf (Fin b) = (if b < 0 then NInf else PInf)"
| "fl_div NInf (Fin b) = (if b < 0 then PInf else NInf)"
| "fl_div x y = NaN"

text \<open>The comparisons \<open>x > 0\<close>, \<open>x == 0\<close> and \<open>x < 0\<close>: each is false on NaN.\<close>

fun gt0 :: "fl \<Rightarrow> bool" where
  "gt0 (Fin a) = (0 < a)"
| "gt0 PInf = True"
| "gt0 x = False"

fun eq0 :: "fl \<Rightarrow> bool" where
  "eq0 (Fin a) = (a = 0)"
| "eq0 x = False"

fun lt0 :: "fl \<Rightarrow> bool" where
  "lt0 (Fin a) = (a < 0)"
| "lt0 NInf = True"
| "lt0 x = False"

definition isna :: "fl \<Rightarrow> bool" where
  "isna x = (x = NaN)"

subsection \<open>Frames\<close>

text \<open>
  A per-message frame: the row labels, the \<open>ts_event\<close> column (nanoseconds), the
  \<open>symbol\<close> column, and the float columns by name, in column order. Reading a column
  that is not there raises \<open>KeyError\<close>; assigning a column replaces one of that name
  where it stands, or appends a new one at the end.
\<close>

record frame =
  index :: "int list"
  ts_event :: "int list"
  symbol :: "string list"
  cols :: "(string \<times> fl list) list"

datatype error =
    MissingColumn "string list"   \<comment> \<open>\<open>KeyError\<close> of a column lookup\<close>
  | SymbolNotFound string         \<comment> \<open>\<open>KeyError\<close> raised by \<open>multi_asset_ofi\<close>\<close>
  | InvalidFrequency              \<comment> \<open>\<open>ValueError\<close> of \<open>resample\<close>\<close>
  | NoObjectsToConcatenate        \<comment> \<open>\<open>ValueError\<close> of \<open>pd.concat\<close> on nothing\<close>
  | FitError                      \<comment> \<open>whatever \<open>PCA(...).fit\<close> raises\<close>
  | IndexError                    \<comment> \<open>\<open>components_[0]\<close> of no component\<close>
  | ShapeMismatch                 \<comment> \<open>\<open>ValueError\<close> of \<open>@\<close> on unequal lengths\<close>

definition getcol :: "frame \<Rightarrow> string \<Rightarrow> error + fl list" where
  "getcol df name =
     (case map_of (cols df) name of
        None \<Rightarrow> Inl (MissingColumn [name])
      | Some c \<Rightarrow> Inr c)"

definition setcol :: "frame \<Rightarrow> string \<Rightarrow> fl list \<Rightarrow> frame" where
  "setcol df name c = df\<lparr>cols := AList.update name c (cols df)\<rparr>"

definition colnames :: "frame \<Rightarrow> string list" where
  "colnames df = map fst (cols df)"

text \<open>A frame is well formed when every column has one cell per row and no two columns
  share a name.\<close>

definition wf_frame :: "frame \<Rightarrow> bool" where
  "wf_frame df =
     (length (ts_event df) = length (index df) \<and>
      length (symbol df) = length (index df) \<and>
      list_all (\<lambda>nc. length (snd nc) = length (index df)) (cols df) \<and>
      distinct (colnames df))"

subsection \<open>Column names\<close>

text \<open>\<open>LEVELS = tuple(range(10))\<close>, and the format \<open>{m:02d}\<close> on it (two digits, for
  \<open>m < 100\<close>).\<close>

definition LEVELS :: "nat list" where
  "LEVELS = [0..<10]"

definition digit :: "nat \<Rightarrow> char" where
  "digit d = char_of (48 + d)"

definition fmt02 :: "nat \<Rightarrow> string" where
  "fmt02 m = [digit (m div 10), digit (m mod 10)]"

datatype side = Bid | Ask

fun side_str :: "side \<Rightarrow> string" where
  "side_str Bid = ''bid''"
| "side_str Ask = ''ask''"

definition px_name :: "side \<Rightarrow> nat \<Rightarrow> string" where
  "px_name s m = side_str s @ ''_px_'' @ fmt02 m"

definition sz_name :: "side \<Rightarrow> nat \<Rightarrow> string" where
  "sz_name s m = side_str s @ ''_sz_'' @ fmt02 m"

definition of_name :: "side \<Rightarrow> nat \<Rightarrow> string" where
  "of_name s m = ''of_'' @ side_str s @ ''_'' @ fmt02 m"

definition ofi_name :: "nat \<Rightarrow> string" where
  "ofi_name m = ''ofi_'' @ fmt02 m"

definition depth_name :: "nat \<Rightarrow> string" where
  "depth_name m = ''depth_'' @ fmt02 m"

subsection \<open>\<open>_side_flow\<close>\<close>

text \<open>\<open>Series.diff()\<close>: NaN in the first row, then the difference to the row before.\<close>

fun diff :: "fl list \<Rightarrow> fl list" where
  "diff [] = []"
| "diff (x # xs) = NaN # map2 (\<lambda>prev cur. fl_sub cur prev) (x # xs) xs"

text \<open>The two nested \<open>np.where\<close> of each side, for one row.\<close>

fun flow_cell :: "side \<Rightarrow> fl \<Rightarrow> fl \<Rightarrow> fl \<Rightarrow> fl" where
  "flow_cell Bid dp q dq = (if gt0 dp then q else if eq0 dp then dq else fl_neg q)"
| "flow_cell Ask dp q dq = (if lt0 dp then fl_neg q else if eq0 dp then dq else q)"

definition flow_series :: "side \<Rightarrow> fl list \<Rightarrow> fl list \<Rightarrow> fl list" where
  "flow_series s p q =
     map (\<lambda>(dp, q, dq). flow_cell s dp q dq) (zip (diff p) (zip q (diff q)))"

definition side_flow :: "frame \<Rightarrow> side \<Rightarrow> nat \<Rightarrow> error + fl list" where
  "side_flow df s level =
     (case getcol df (px_name s level) of
        Inl e \<Rightarrow> Inl e
      | Inr p \<Rightarrow>
          (case getcol df (sz_name s level) of
             Inl e \<Rightarrow> Inl e
           | Inr q \<Rightarrow> Inr (flow_series s p q)))"

subsection \<open>\<open>add_level_ofi\<close>\<close>

text \<open>One pass of the loop body on the copy \<open>out\<close>: three column assignments, each
  reading \<open>out\<close> as the assignments before it left it.\<close>

definition level_step :: "nat \<Rightarrow> frame \<Rightarrow> error + frame" where
  "level_step m out =
     (case side_flow out Bid m of
        Inl e \<Rightarrow> Inl e
      | Inr ob \<Rightarrow>
          let out1 = setcol out (of_name Bid m) ob in
          (case side_flow out1 Ask m of
             Inl e \<Rightarrow> Inl e
           | Inr oa \<Rightarrow>
               let out2 = setcol out1 (of_name Ask m) oa in
               (case getcol out2 (of_name Bid m) of
                  Inl e \<Rightarrow> Inl e
                | Inr a \<Rightarrow>
                    (case getcol out2 (of_name Ask m) of
                       Inl e \<Rightarrow> Inl e
                     | Inr b \<Rightarrow> Inr (setcol out2 (ofi_name m) (map2 fl_sub a b))))))"

fun level_loop :: "nat list \<Rightarrow> frame \<Rightarrow> error + frame" where
  "level_loop [] out = Inr out"
| "level_loop (m # ms) out =
     (case level_step m out of
        Inl e \<Rightarrow> Inl e
      | Inr out' \<Rightarrow> level_loop ms out')"

text \<open>\<open>out = df.copy()\<close> is a deep copy: the loop works on a value of its own, and the
  caller's frame is only read.\<close>

definition add_level_ofi :: "frame \<Rightarrow> error + frame" where
  "add_level_ofi df = level_loop LEVELS df"

subsection \<open>Bar tables and \<open>resample\<close>\<close>

text \<open>
  A bar table: the column labels and one row per bucket, each row the bucket's timestamp
  and one cell per column.
\<close>

record 'c table =
  tcols :: "'c list"
  trows :: "(int \<times> fl list) list"

definition labels :: "'c table \<Rightarrow> int list" where
  "labels t = map fst (trows t)"

text \<open>
  \<open>resample(freq)\<close> for a fixed-width frequency of \<open>w\<close> nanoseconds, with the defaults
  \<open>closed='left'\<close>, \<open>label='left'\<close>, \<open>origin='start_day'\<close>: the grid is anchored at
  midnight of the first timestamp's day, it runs from the bucket of the earliest
  timestamp to the bucket of the latest, and the bucket labelled \<open>b\<close> holds the rows with
  \<open>b \<le> ts < b + w\<close>. The width stands for the parsed frequency string. The cells of a
  bucket are taken in row order (pandas sorts the rows by time first, which an exact sum
  or mean does not see).
\<close>

definition DAY :: int where
  "DAY = 86400000000000"

definition floor_label :: "int \<Rightarrow> int \<Rightarrow> int \<Rightarrow> int" where
  "floor_label origin w t = origin + ((t - origin) div w) * w"

definition bin_labels :: "int \<Rightarrow> int list \<Rightarrow> int list" where
  "bin_labels w ts =
     (case ts of
        [] \<Rightarrow> []
      | t # rest \<Rightarrow>
          let first = fold min rest t;
              last = fold max rest t;
              origin = (first div DAY) * DAY;
              lo = floor_label origin w first;
              hi = floor_label origin w last
          in map (\<lambda>k. lo + int k * w) [0..<nat ((hi - lo) div w) + 1])"

definition in_bucket :: "int \<Rightarrow> int \<Rightarrow> int \<Rightarrow> bool" where
  "in_bucket w b t = (b \<le> t \<and> t < b + w)"

definition bucket_vals :: "int \<Rightarrow> int list \<Rightarrow> fl list \<Rightarrow> int \<Rightarrow> fl list" where
  "bucket_vals w ts c b = map snd (filter (\<lambda>tv. in_bucket w b (fst tv)) (zip ts c))"

definition fl_sum :: "fl list \<Rightarrow> fl" where
  "fl_sum xs = foldl fl_add (Fin 0) xs"

definition notna :: "fl list \<Rightarrow> fl list" where
  "notna xs = filter (\<lambda>v. \<not> isna v) xs"

text \<open>\<open>.sum(min_count=1)\<close>: the sum of the cells that are not missing, and NaN when there
  are fewer than one of them.\<close>

definition sum_min_count1 :: "fl list \<Rightarrow> fl" where
  "sum_min_count1 xs = (if length (notna xs) < 1 then NaN else fl_sum (notna xs))"

text \<open>\<open>.mean()\<close>: the mean of the cells that are not missing, NaN when there are none.\<close>

definition mean_skipna :: "fl list \<Rightarrow> fl" where
  "mean_skipna xs =
     (if notna xs = [] then NaN
      else fl_div (fl_sum (notna xs)) (Fin (real (length (notna xs)))))"

definition resample_agg ::
  "(fl list \<Rightarrow> fl) \<Rightarrow> int \<Rightarrow> int list \<Rightarrow> (string \<times> fl list) list \<Rightarrow> string table" where
  "resample_agg agg w ts cs =
     \<lparr>tcols = map fst cs,
      trows = map (\<lambda>b. (b, map (\<lambda>nc. agg (bucket_vals w ts (snd nc) b)) cs)) (bin_labels w ts)\<rparr>"

text \<open>\<open>.dropna()\<close>: a row with a missing cell in any column goes.\<close>

definition dropna :: "'c table \<Rightarrow> 'c table" where
  "dropna t = t\<lparr>trows := filter (\<lambda>r. \<not> list_ex isna (snd r)) (trows t)\<rparr>"

text \<open>\<open>df[names]\<close> with a list of names: \<open>KeyError\<close> naming the ones that are missing.\<close>

definition select_cols :: "frame \<Rightarrow> string list \<Rightarrow> error + (string \<times> fl list) list" where
  "select_cols df ns =
     (let missing = filter (\<lambda>n. map_of (cols df) n = None) ns in
      if missing \<noteq> [] then Inl (MissingColumn missing)
      else Inr (map (\<lambda>n. (n, case map_of (cols df) n of Some c \<Rightarrow> c | None \<Rightarrow> [])) ns))"

subsection \<open>\<open>aggregate_ofi\<close>\<close>

definition ofi_cols :: "string list" where
  "ofi_cols = map ofi_name LEVELS"

definition depth_cols :: "string list" where
  "depth_cols = map depth_name LEVELS"

text \<open>The loop that writes the depth columns: it assigns into \<open>df\<close>, the caller's frame,
  so the frame is threaded through and returned as the loop leaves it, also when a
  lookup raises part of the way.\<close>

fun depth_loop :: "nat list \<Rightarrow> frame \<Rightarrow> frame \<times> error option" where
  "depth_loop [] df = (df, None)"
| "depth_loop (m # ms) df =
     (case getcol df (sz_name Bid m) of
        Inl e \<Rightarrow> (df, Some e)
      | Inr b \<Rightarrow>
          (case getcol df (sz_name Ask m) of
             Inl e \<Rightarrow> (df, Some e)
           | Inr a \<Rightarrow> depth_loop ms (setcol df (depth_name m) (map2 fl_add b a))))"

text \<open>\<open>depth.mean(axis=1) / 2\<close>: one divisor per bucket of the depth table.\<close>

definition depth_bar_of :: "string table \<Rightarrow> (int \<times> fl) list" where
  "depth_bar_of depth = map (\<lambda>r. (fst r, fl_div (mean_skipna (snd r)) (Fin 2))) (trows depth)"

text \<open>
  \<open>bar.div(depth_bar, axis=0)\<close>: the frame and the series are aligned on their row labels
  by an outer join (the labels of either, sorted, unless the two indexes are equal), and
  a label that one side lacks gets a row of NaN.
\<close>

definition div_axis0 :: "string table \<Rightarrow> (int \<times> fl) list \<Rightarrow> string table" where
  "div_axis0 bar d =
     (let lb = labels bar; ld = map fst d;
          ls = (if lb = ld then lb else sort (remdups (lb @ ld)))
      in \<lparr>tcols = tcols bar,
          trows = map (\<lambda>b. (b,
            case map_of (trows bar) b of
              None \<Rightarrow> replicate (length (tcols bar)) NaN
            | Some vs \<Rightarrow>
                (case map_of d b of
                   None \<Rightarrow> replicate (length (tcols bar)) NaN
                 | Some x \<Rightarrow> map (\<lambda>v. fl_div v x) vs))) ls\<rparr>)"

text \<open>The table of sums, \<open>bar\<close>, and the table of mean depths. A width that is not
  positive is refused where there are rows to bin; a frame without rows gives the empty
  table.\<close>

definition ofi_bar :: "frame \<Rightarrow> int \<Rightarrow> error + string table" where
  "ofi_bar df w =
     (case select_cols df ofi_cols of
        Inl e \<Rightarrow> Inl e
      | Inr sel \<Rightarrow>
          if w \<le> 0 \<and> ts_event df \<noteq> [] then Inl InvalidFrequency
          else Inr (dropna (resample_agg sum_min_count1 w (ts_event df) sel)))"

definition depth_table :: "frame \<Rightarrow> int \<Rightarrow> error + string table" where
  "depth_table df w =
     (case select_cols df depth_cols of
        Inl e \<Rightarrow> Inl e
      | Inr sel \<Rightarrow> Inr (dropna (resample_agg mean_skipna w (ts_event df) sel)))"

text \<open>The result is the caller's frame as the call leaves it, and what the call returns
  or raises.\<close>

definition aggregate_ofi :: "frame \<Rightarrow> int \<Rightarrow> bool \<Rightarrow> frame \<times> (error + string table)" where
  "aggregate_ofi df w normalise =
     (case ofi_bar df w of
        Inl e \<Rightarrow> (df, Inl e)
      | Inr bar \<Rightarrow>
          if \<not> normalise then (df, Inr bar)
          else
            (case depth_loop LEVELS df of
               (df', Some e) \<Rightarrow> (df', Inl e)
             | (df', None) \<Rightarrow>
                 (case depth_table df' w of
                    Inl e \<Rightarrow> (df', Inl e)
                  | Inr depth \<Rightarrow> (df', Inr (div_axis0 bar (depth_bar_of depth))))))"

subsection \<open>\<open>integrated_ofi\<close>\<close>

fun fl_abs :: "fl \<Rightarrow> fl" where
  "fl_abs NaN = NaN"
| "fl_abs (Fin a) = Fin \<bar>a\<bar>"
| "fl_abs x = PInf"

fun fl_mul :: "fl \<Rightarrow> fl \<Rightarrow> fl" where
  "fl_mul NaN y = NaN"
| "fl_mul x NaN = NaN"
| "fl_mul (Fin a) (Fin b) = Fin (a * b)"
| "fl_mul (Fin a) y = (if a = 0 then NaN else if 0 < a then y else fl_neg y)"
| "fl_mul x (Fin b) = (if b = 0 then NaN else if 0 < b then x else fl_neg x)"
| "fl_mul x y = (if x = y then PInf else NInf)"

text \<open>\<open>w /= np.sum(np.abs(w))\<close> and the product \<open>ofi_bar @ w\<close>, one dot product per bar.\<close>

definition l1_norm :: "fl list \<Rightarrow> fl" where
  "l1_norm w = fl_sum (map fl_abs w)"

definition l1_normalise :: "fl list \<Rightarrow> fl list" where
  "l1_normalise w = map (\<lambda>x. fl_div x (l1_norm w)) w"

definition dot :: "fl list \<Rightarrow> fl list \<Rightarrow> fl" where
  "dot vs w = fl_sum (map2 fl_mul vs w)"

text \<open>
  The principal-component fit is scikit-learn's, not this repository's: it is the
  parameter \<open>pca_fit\<close>, which takes the bar matrix and the number of components and
  returns \<open>components_\<close>, or raises.
\<close>

definition integrated_ofi ::
  "(fl list list \<Rightarrow> nat \<Rightarrow> error + fl list list) \<Rightarrow> string table \<Rightarrow> nat \<Rightarrow>
     error + (int \<times> fl) list" where
  "integrated_ofi pca_fit bar n_components =
     (case pca_fit (map snd (trows bar)) n_components of
        Inl e \<Rightarrow> Inl e
      | Inr components \<Rightarrow>
          (case components of
             [] \<Rightarrow> Inl IndexError
           | w0 # _ \<Rightarrow>
               let w = l1_normalise w0 in
               if length w \<noteq> length (tcols bar) then Inl ShapeMismatch
               else Inr (map (\<lambda>r. (fst r, dot (snd r) w)) (trows bar))))"

subsection \<open>\<open>multi_asset_ofi\<close>\<close>

text \<open>\<open>raw_df[raw_df["symbol"] == sym]\<close>: the rows of one symbol, as a new frame.\<close>

definition mask_filter :: "bool list \<Rightarrow> 'a list \<Rightarrow> 'a list" where
  "mask_filter keep xs = map snd (filter fst (zip keep xs))"

definition select_symbol :: "frame \<Rightarrow> string \<Rightarrow> frame" where
  "select_symbol raw sy =
     (let keep = map (\<lambda>s. s = sy) (symbol raw) in
      \<lparr>index = mask_filter keep (index raw),
       ts_event = mask_filter keep (ts_event raw),
       symbol = mask_filter keep (symbol raw),
       cols = map (\<lambda>nc. (fst nc, mask_filter keep (snd nc))) (cols raw)\<rparr>)"

text \<open>\<open>DataFrame.empty\<close>: no rows (a frame of this model always has columns).\<close>

definition frame_empty :: "frame \<Rightarrow> bool" where
  "frame_empty df = (index df = [])"

text \<open>The loop over the symbols, filling the dict \<open>frames\<close>; it stops at the first
  \<open>raise\<close>.\<close>

fun symbol_loop ::
  "frame \<Rightarrow> int \<Rightarrow> bool \<Rightarrow> string list \<Rightarrow> (string \<times> string table) list \<Rightarrow>
     error + (string \<times> string table) list" where
  "symbol_loop raw w normalise [] frames = Inr frames"
| "symbol_loop raw w normalise (sy # syms) frames =
     (let sym_df = select_symbol raw sy in
      if frame_empty sym_df then Inl (SymbolNotFound sy)
      else
        (case add_level_ofi sym_df of
           Inl e \<Rightarrow> Inl e
         | Inr msg_df \<Rightarrow>
             (case snd (aggregate_ofi msg_df w normalise) of
                Inl e \<Rightarrow> Inl e
              | Inr bar_df \<Rightarrow>
                  symbol_loop raw w normalise syms (AList.update sy bar_df frames))))"

text \<open>\<open>pd.concat(frames, axis=1, join="inner")\<close>: the columns of every frame under its
  key, on the row labels that every frame has.\<close>

definition concat_inner ::
  "(string \<times> string table) list \<Rightarrow> error + (string \<times> string) table" where
  "concat_inner frames =
     (case frames of
        [] \<Rightarrow> Inl NoObjectsToConcatenate
      | f0 # rest \<Rightarrow>
          let common = filter (\<lambda>b. list_all (\<lambda>f. b \<in> set (labels (snd f))) rest)
                         (labels (snd f0))
          in Inr \<lparr>tcols = concat (map (\<lambda>f. map (\<lambda>n. (fst f, n)) (tcols (snd f))) frames),
                  trows = map (\<lambda>b. (b, concat (map (\<lambda>f.
                      case map_of (trows (snd f)) b of
                        None \<Rightarrow> replicate (length (tcols (snd f))) NaN
                      | Some vs \<Rightarrow> vs) frames))) common\<rparr>)"

definition multi_asset_ofi ::
  "frame \<Rightarrow> string list \<Rightarrow> int \<Rightarrow> bool \<Rightarrow> error + (string \<times> string) table" where
  "multi_asset_ofi raw_df symbols w normalise =
     (case symbol_loop raw_df w normalise symbols [] of
        Inl e \<Rightarrow> Inl e
      | Inr frames \<Rightarrow> concat_inner frames)"

section \<open>Notions used in the statements\<close>

text \<open>
  The definitions of this section are not translations of source functions: they name
  what the statements below speak about.
\<close>

subsection \<open>Columns a frame has\<close>

definition has_col :: "frame \<Rightarrow> string \<Rightarrow> bool" where
  "has_col df n = (map_of (cols df) n \<noteq> None)"

text \<open>The column of a name, for a frame that has it.\<close>

definition col :: "frame \<Rightarrow> string \<Rightarrow> fl list" where
  "col df n = (case map_of (cols df) n of Some c \<Rightarrow> c | None \<Rightarrow> [])"

text \<open>The four price and size columns that the level-flow stage reads for a level, and
  the three columns it writes for it.\<close>

definition book_names :: "nat \<Rightarrow> string list" where
  "book_names m = [px_name Bid m, sz_name Bid m, px_name Ask m, sz_name Ask m]"

definition derived_names :: "nat \<Rightarrow> string list" where
  "derived_names m = [of_name Bid m, of_name Ask m, ofi_name m]"

definition all_derived_names :: "string list" where
  "all_derived_names = concat (map derived_names LEVELS)"

definition has_levels :: "frame \<Rightarrow> nat list \<Rightarrow> bool" where
  "has_levels df ms = list_all (\<lambda>m. list_all (has_col df) (book_names m)) ms"

definition has_book_cols :: "frame \<Rightarrow> bool" where
  "has_book_cols df = has_levels df LEVELS"

definition has_ofi_cols :: "frame \<Rightarrow> bool" where
  "has_ofi_cols df = list_all (has_col df) ofi_cols"

definition has_size_cols :: "frame \<Rightarrow> bool" where
  "has_size_cols df =
     list_all (\<lambda>m. has_col df (sz_name Bid m) \<and> has_col df (sz_name Ask m)) LEVELS"

subsection \<open>Finite cells\<close>

fun is_fin :: "fl \<Rightarrow> bool" where
  "is_fin (Fin a) = True"
| "is_fin x = False"

fun fl_val :: "fl \<Rightarrow> real" where
  "fl_val (Fin a) = a"
| "fl_val x = 0"

definition finite_ofi :: "frame \<Rightarrow> bool" where
  "finite_ofi df = list_all (\<lambda>m. list_all is_fin (col df (ofi_name m))) LEVELS"

definition finite_sizes :: "frame \<Rightarrow> bool" where
  "finite_sizes df =
     list_all (\<lambda>m. list_all is_fin (col df (sz_name Bid m)) \<and>
                    list_all is_fin (col df (sz_name Ask m))) LEVELS"

subsection \<open>What the level-flow stage writes\<close>

text \<open>The flow series of a side and level and the OFI series of a level, read off the
  frame's book columns; the three assignments of one pass of the loop as a function of
  the frame; and the columns a pass adds to a frame that has none of their names.\<close>

definition flow_of :: "frame \<Rightarrow> side \<Rightarrow> nat \<Rightarrow> fl list" where
  "flow_of df s m = flow_series s (col df (px_name s m)) (col df (sz_name s m))"

definition ofi_of :: "frame \<Rightarrow> nat \<Rightarrow> fl list" where
  "ofi_of df m = map2 fl_sub (flow_of df Bid m) (flow_of df Ask m)"

definition level_out :: "nat \<Rightarrow> frame \<Rightarrow> frame" where
  "level_out m df =
     setcol (setcol (setcol df (of_name Bid m) (flow_of df Bid m))
       (of_name Ask m) (flow_of df Ask m)) (ofi_name m) (ofi_of df m)"

definition new_cols :: "frame \<Rightarrow> nat \<Rightarrow> (string \<times> fl list) list" where
  "new_cols df m =
     [(of_name Bid m, flow_of df Bid m), (of_name Ask m, flow_of df Ask m),
      (ofi_name m, ofi_of df m)]"

text \<open>The frame that \<open>add_level_ofi\<close> returns (the argument where it raises), and a column
  of what it returns.\<close>

definition msgs_of :: "frame \<Rightarrow> frame" where
  "msgs_of df = (case add_level_ofi df of Inl e \<Rightarrow> df | Inr out \<Rightarrow> out)"

definition result_col :: "error + frame \<Rightarrow> string \<Rightarrow> fl list option" where
  "result_col r n = (case r of Inl e \<Rightarrow> None | Inr out \<Rightarrow> map_of (cols out) n)"

text \<open>The depth series of a level, and one assignment of the depth loop as a function of
  the frame.\<close>

definition depth_of :: "frame \<Rightarrow> nat \<Rightarrow> fl list" where
  "depth_of df m = map2 fl_add (col df (sz_name Bid m)) (col df (sz_name Ask m))"

definition depth_out :: "nat \<Rightarrow> frame \<Rightarrow> frame" where
  "depth_out m df = setcol df (depth_name m) (depth_of df m)"

subsection \<open>Bars and divisors, in the words of the specification\<close>

text \<open>The cells of a column, and the depths \<open>bid size + ask size\<close> of a level, over the
  messages whose timestamp lies in the bucket \<open>[b, b + w)\<close>, by row number.\<close>

definition bucket_cells :: "frame \<Rightarrow> int \<Rightarrow> string \<Rightarrow> int \<Rightarrow> fl list" where
  "bucket_cells df w n b =
     map (\<lambda>i. col df n ! i) (filter (\<lambda>i. in_bucket w b (ts_event df ! i)) [0..<length (index df)])"

definition depth_cells :: "frame \<Rightarrow> int \<Rightarrow> nat \<Rightarrow> int \<Rightarrow> fl list" where
  "depth_cells df w m b =
     map (\<lambda>i. fl_add (col df (sz_name Bid m) ! i) (col df (sz_name Ask m) ! i))
       (filter (\<lambda>i. in_bucket w b (ts_event df ! i)) [0..<length (index df)])"

text \<open>Per level, the sum of a bucket's OFI values and the mean of its depths (over the
  values that are not missing, as pandas sums and averages).\<close>

definition spec_bar_row :: "frame \<Rightarrow> int \<Rightarrow> int \<Rightarrow> fl list" where
  "spec_bar_row df w b = map (\<lambda>m. sum_min_count1 (bucket_cells df w (ofi_name m) b)) LEVELS"

definition spec_depth_row :: "frame \<Rightarrow> int \<Rightarrow> int \<Rightarrow> fl list" where
  "spec_depth_row df w b = map (\<lambda>m. mean_skipna (depth_cells df w m b)) LEVELS"

text \<open>The divisor of a bucket: the mean over the levels of the per-level mean depth,
  divided by 2. For finite sizes it is the real number \<open>divisor_real\<close>.\<close>

definition spec_divisor :: "frame \<Rightarrow> int \<Rightarrow> int \<Rightarrow> fl" where
  "spec_divisor df w b = fl_div (mean_skipna (spec_depth_row df w b)) (Fin 2)"

definition depth_mean_real :: "frame \<Rightarrow> int \<Rightarrow> nat \<Rightarrow> int \<Rightarrow> real" where
  "depth_mean_real df w m b =
     sum_list (map fl_val (depth_cells df w m b)) / real (length (depth_cells df w m b))"

definition divisor_real :: "frame \<Rightarrow> int \<Rightarrow> int \<Rightarrow> real" where
  "divisor_real df w b = sum_list (map (\<lambda>m. depth_mean_real df w m b) LEVELS) / 10 / 2"


text \<open>The buckets of the grid that have a sum on every level, those that have a mean
  depth on every level, and the row of the normalised table for a bucket.\<close>

definition has_bar :: "frame \<Rightarrow> int \<Rightarrow> int \<Rightarrow> bool" where
  "has_bar df w b =
     (b \<in> set (bin_labels w (ts_event df)) \<and> \<not> list_ex isna (spec_bar_row df w b))"

definition has_depth :: "frame \<Rightarrow> int \<Rightarrow> int \<Rightarrow> bool" where
  "has_depth df w b =
     (b \<in> set (bin_labels w (ts_event df)) \<and> \<not> list_ex isna (spec_depth_row df w b))"

definition norm_row :: "frame \<Rightarrow> int \<Rightarrow> int \<Rightarrow> fl list" where
  "norm_row df w b =
     (if has_bar df w b \<and> has_depth df w b
      then map (\<lambda>v. fl_div v (spec_divisor df w b)) (spec_bar_row df w b)
      else replicate 10 NaN)"

subsection \<open>Example data\<close>

text \<open>Four messages of one symbol, level 0 only: the bid rises, stays, falls; the ask
  falls, stays, rises.\<close>

definition ex_quotes :: frame where
  "ex_quotes =
     \<lparr>index = [0, 1, 2, 3],
      ts_event = [0, 1, 2, 3],
      symbol = [''A'', ''A'', ''A'', ''A''],
      cols = [(''bid_px_00'', [Fin 100, Fin 101, Fin 101, Fin 100]),
              (''bid_sz_00'', [Fin 5, Fin 7, Fin 4, Fin 6]),
              (''ask_px_00'', [Fin 103, Fin 102, Fin 102, Fin 104]),
              (''ask_sz_00'', [Fin 8, Fin 3, Fin 9, Fin 2])]\<rparr>"

text \<open>The book columns of one level, and three messages of the symbol \<open>A\<close> at the
  timestamps 0, 5 and 12 with the same book on all ten levels; \<open>ex_msgs\<close> is what the
  level-flow stage makes of them.\<close>

definition level_book ::
  "fl list \<Rightarrow> fl list \<Rightarrow> fl list \<Rightarrow> fl list \<Rightarrow> nat \<Rightarrow> (string \<times> fl list) list" where
  "level_book bp bs ap as m =
     [(px_name Bid m, bp), (sz_name Bid m, bs), (px_name Ask m, ap), (sz_name Ask m, as)]"

definition ex_book :: frame where
  "ex_book =
     \<lparr>index = [0, 1, 2],
      ts_event = [0, 5, 12],
      symbol = [''A'', ''A'', ''A''],
      cols = concat (map (level_book [Fin 100, Fin 101, Fin 101] [Fin 5, Fin 7, Fin 4]
                [Fin 103, Fin 102, Fin 102] [Fin 8, Fin 3, Fin 9]) LEVELS)\<rparr>"

definition ex_msgs :: frame where
  "ex_msgs = msgs_of ex_book"

text \<open>The same book with a column \<open>ofi_00\<close> of its own.\<close>

definition ex_rerun :: frame where
  "ex_rerun = ex_book\<lparr>cols := cols ex_book @ [(''ofi_00'', [Fin 42, Fin 42, Fin 42])]\<rparr>"

text \<open>Two messages at the timestamps 0 and 10 with unchanged prices: the bid size falls
  from 5 to 0 and the ask size is 0, on every level.\<close>

definition ex_zero :: frame where
  "ex_zero =
     \<lparr>index = [0, 1],
      ts_event = [0, 10],
      symbol = [''A'', ''A''],
      cols = concat (map (level_book [Fin 100, Fin 100] [Fin 5, Fin 0]
                [Fin 101, Fin 101] [Fin 0, Fin 0]) LEVELS)\<rparr>"

definition ex_zero_msgs :: frame where
  "ex_zero_msgs = msgs_of ex_zero"

text \<open>Two messages at the timestamps 0 and 10 with unchanged prices: the bid size of the
  first is missing, on every level.\<close>

definition ex_gap :: frame where
  "ex_gap =
     \<lparr>index = [0, 1],
      ts_event = [0, 10],
      symbol = [''A'', ''A''],
      cols = concat (map (level_book [Fin 100, Fin 100] [NaN, Fin 1]
                [Fin 101, Fin 101] [Fin 1, Fin 1]) LEVELS)\<rparr>"

definition ex_gap_msgs :: frame where
  "ex_gap_msgs = msgs_of ex_gap"

text \<open>Two messages at the timestamps 0 and 10 with unchanged prices: the bid size of the
  first is missing and every other size is 0, on every level.\<close>

definition ex_drop :: frame where
  "ex_drop =
     \<lparr>index = [0, 1],
      ts_event = [0, 10],
      symbol = [''A'', ''A''],
      cols = concat (map (level_book [Fin 100, Fin 100] [NaN, Fin 0]
                [Fin 101, Fin 101] [Fin 0, Fin 0]) LEVELS)\<rparr>"

definition ex_drop_msgs :: frame where
  "ex_drop_msgs = msgs_of ex_drop"

text \<open>A bar table of two columns and three bars, all on one line through the origin,
  and a stand-in for scikit-learn's fit on tables of two columns: asked for more
  components than the table has bars or columns it raises; otherwise it returns as many
  directions as it is asked for, the first of \<open>(3/5, 4/5)\<close>, the direction of the bars,
  and \<open>(-4/5, 3/5)\<close>; asked for none, it returns none.\<close>

definition ex_bar :: "string table" where
  "ex_bar =
     \<lparr>tcols = [''ofi_00'', ''ofi_01''],
      trows = [(0, [Fin 0, Fin 0]), (10, [Fin 3, Fin 4]), (20, [Fin 6, Fin 8])]\<rparr>"

definition ex_pca :: "fl list list \<Rightarrow> nat \<Rightarrow> error + fl list list" where
  "ex_pca X n =
     (if min (length X) 2 < n then Inl FitError
      else Inr (take n [[Fin (3 / 5), Fin (4 / 5)], [Fin (- (4 / 5)), Fin (3 / 5)]]))"

section \<open>Lemmas\<close>

subsection \<open>Cell arithmetic\<close>

lemma fl_sub_Fin [simp]: "fl_sub (Fin a) (Fin b) = Fin (a - b)"
  by (simp add: fl_sub_def)

lemma length_diff [simp]: "length (diff xs) = length xs"
  by (cases xs) simp_all

lemma diff_nth:
  assumes "0 < i" and "i < length xs"
  shows "diff xs ! i = fl_sub (xs ! i) (xs ! (i - 1))"
proof (cases xs)
  case Nil
  with assms show ?thesis by simp
next
  case (Cons x rest)
  from assms obtain j where j: "i = Suc j" by (cases i) auto
  with assms Cons have "j < length rest" by simp
  with j Cons show ?thesis by simp
qed

lemma diff_first: "xs \<noteq> [] \<Longrightarrow> diff xs ! 0 = NaN"
  by (cases xs) simp_all

lemma length_flow_series [simp]:
  "length (flow_series s p q) = min (length p) (length q)"
  by (simp add: flow_series_def)

lemma flow_series_nth:
  assumes "i < length p" and "i < length q"
  shows "flow_series s p q ! i = flow_cell s (diff p ! i) (q ! i) (diff q ! i)"
  using assms by (simp add: flow_series_def)

lemma flow_cell_rule:
  "(s = Bid \<longrightarrow> (gt0 dp \<longrightarrow> flow_cell s dp q dq = q) \<and> (eq0 dp \<longrightarrow> flow_cell s dp q dq = dq) \<and>
      (lt0 dp \<longrightarrow> flow_cell s dp q dq = fl_neg q)) \<and>
   (s = Ask \<longrightarrow> (lt0 dp \<longrightarrow> flow_cell s dp q dq = fl_neg q) \<and> (eq0 dp \<longrightarrow> flow_cell s dp q dq = dq) \<and>
      (gt0 dp \<longrightarrow> flow_cell s dp q dq = q))"
  by (cases s; cases dp; simp)

subsection \<open>Column names and lookups\<close>

lemma digits:
  "digit 0 = CHR ''0''" "digit 1 = CHR ''1''" "digit 2 = CHR ''2''" "digit 3 = CHR ''3''"
  "digit 4 = CHR ''4''" "digit 5 = CHR ''5''" "digit 6 = CHR ''6''" "digit 7 = CHR ''7''"
  "digit 8 = CHR ''8''" "digit 9 = CHR ''9''"
  by code_simp+

lemma digit_inj: "m < 10 \<Longrightarrow> n < 10 \<Longrightarrow> digit m = digit n \<Longrightarrow> m = n"
  by (simp add: digit_def char_of_eq_iff take_bit_eq_mod)

lemma names00:
  "px_name Bid 0 = ''bid_px_00''" "sz_name Bid 0 = ''bid_sz_00''"
  "px_name Ask 0 = ''ask_px_00''" "sz_name Ask 0 = ''ask_sz_00''"
  by (simp_all add: px_name_def sz_name_def fmt02_def digits)

lemma wf_frame_col_length:
  assumes "wf_frame df" and "getcol df name = Inr c"
  shows "length c = length (index df)"
proof -
  from assms(2) have "map_of (cols df) name = Some c"
    by (simp add: getcol_def split: option.splits)
  then have "(name, c) \<in> set (cols df)" by (rule map_of_SomeD)
  with assms(1) show ?thesis
    by (auto simp: wf_frame_def list_all_iff)
qed

lemma side_flow_Inr:
  assumes "getcol df (px_name s level) = Inr p" and "getcol df (sz_name s level) = Inr q"
  shows "side_flow df s level = Inr (flow_series s p q)"
  using assms by (simp add: side_flow_def)

lemma ex_quotes_wf: "wf_frame ex_quotes"
  by (simp add: wf_frame_def ex_quotes_def colnames_def)

lemma ex_quotes_cols:
  "getcol ex_quotes (px_name Bid 0) = Inr [Fin 100, Fin 101, Fin 101, Fin 100]"
  "getcol ex_quotes (sz_name Bid 0) = Inr [Fin 5, Fin 7, Fin 4, Fin 6]"
  "getcol ex_quotes (px_name Ask 0) = Inr [Fin 103, Fin 102, Fin 102, Fin 104]"
  "getcol ex_quotes (sz_name Ask 0) = Inr [Fin 8, Fin 3, Fin 9, Fin 2]"
  by (simp_all add: names00 getcol_def ex_quotes_def)

subsection \<open>The level loop\<close>

lemma fmt02_inj: "m < 100 \<Longrightarrow> n < 100 \<Longrightarrow> fmt02 m = fmt02 n \<Longrightarrow> m = n"
proof -
  assume a: "m < 100" "n < 100" "fmt02 m = fmt02 n"
  have lt: "m div 10 < 10" "n div 10 < 10" "m mod 10 < 10" "n mod 10 < 10" using a by simp_all
  from a(3) have d: "digit (m div 10) = digit (n div 10)" "digit (m mod 10) = digit (n mod 10)"
    by (simp_all add: fmt02_def)
  have "m div 10 = n div 10" using lt(1,2) d(1) by (rule digit_inj)
  moreover have "m mod 10 = n mod 10" using lt(3,4) d(2) by (rule digit_inj)
  ultimately show "m = n" by (metis div_mult_mod_eq)
qed

lemma book_not_derived:
  "px_name s m \<noteq> of_name s' m'" "sz_name s m \<noteq> of_name s' m'"
  "px_name s m \<noteq> ofi_name m'" "sz_name s m \<noteq> ofi_name m'"
  "px_name s m \<noteq> depth_name m'" "sz_name s m \<noteq> depth_name m'"
  by (cases s; cases s'; simp add: px_name_def sz_name_def of_name_def ofi_name_def depth_name_def fmt02_def)+

lemma derived_distinct:
  "of_name Bid m \<noteq> of_name Ask m'" "of_name s m \<noteq> ofi_name m'"
  "of_name s m \<noteq> depth_name m'" "ofi_name m \<noteq> depth_name m'"
  by (cases s; simp add: of_name_def ofi_name_def depth_name_def fmt02_def)+

lemma name_eq_iff:
  "of_name s m = of_name s' m' \<longleftrightarrow> s = s' \<and> fmt02 m = fmt02 m'"
  "ofi_name m = ofi_name m' \<longleftrightarrow> fmt02 m = fmt02 m'"
  "depth_name m = depth_name m' \<longleftrightarrow> fmt02 m = fmt02 m'"
  by (cases s; cases s'; simp add: of_name_def ofi_name_def depth_name_def)+

lemma getcol_setcol: "getcol (setcol df n c) n' = (if n' = n then Inr c else getcol df n')"
  by (simp add: getcol_def setcol_def update_conv')

lemma getcol_col: "has_col df n \<Longrightarrow> getcol df n = Inr (col df n)"
  by (auto simp: has_col_def getcol_def col_def)

lemma level_step_eq:
  assumes "list_all (has_col df) (book_names m)"
  shows "level_step m df = Inr (level_out m df)"
proof -
  from assms have h: "has_col df (px_name Bid m)" "has_col df (sz_name Bid m)"
    "has_col df (px_name Ask m)" "has_col df (sz_name Ask m)"
    by (simp_all add: book_names_def)
  have b: "side_flow df Bid m = Inr (flow_of df Bid m)"
    by (simp add: side_flow_def getcol_col h flow_of_def)
  have a: "side_flow (setcol df (of_name Bid m) (flow_of df Bid m)) Ask m = Inr (flow_of df Ask m)"
    by (simp add: side_flow_def getcol_setcol book_not_derived getcol_col h flow_of_def)
  show ?thesis
    by (simp add: level_step_def b a Let_def getcol_setcol derived_distinct level_out_def ofi_of_def)
qed

lemma setcol_fields [simp]:
  "index (setcol df n c) = index df" "ts_event (setcol df n c) = ts_event df"
  "symbol (setcol df n c) = symbol df"
  by (simp_all add: setcol_def)

lemma map_of_setcol:
  "map_of (cols (setcol df n c)) n' = (if n' = n then Some c else map_of (cols df) n')"
  by (simp add: setcol_def update_conv')

lemma level_out_fields [simp]:
  "index (level_out m df) = index df" "ts_event (level_out m df) = ts_event df"
  "symbol (level_out m df) = symbol df"
  by (simp_all add: level_out_def)

lemma map_of_level_out:
  "map_of (cols (level_out m df)) n =
     (if n = ofi_name m then Some (ofi_of df m)
      else if n = of_name Ask m then Some (flow_of df Ask m)
      else if n = of_name Bid m then Some (flow_of df Bid m)
      else map_of (cols df) n)"
  by (simp add: level_out_def map_of_setcol)

lemma col_level_out_book [simp]:
  "col (level_out m df) (px_name s m') = col df (px_name s m')"
  "col (level_out m df) (sz_name s m') = col df (sz_name s m')"
  by (simp_all add: col_def map_of_level_out book_not_derived)

lemma flow_of_level_out [simp]: "flow_of (level_out m df) s m' = flow_of df s m'"
  by (simp add: flow_of_def)

lemma ofi_of_level_out [simp]: "ofi_of (level_out m df) m' = ofi_of df m'"
  by (simp add: ofi_of_def)

lemma has_col_level_out: "has_col df n \<Longrightarrow> has_col (level_out m df) n"
  by (simp add: has_col_def map_of_level_out)

lemma has_levels_level_out: "has_levels df ms \<Longrightarrow> has_levels (level_out m df) ms"
  by (auto simp: has_levels_def list_all_iff intro: has_col_level_out)

lemma level_loop_eq:
  "has_levels df ms \<Longrightarrow> level_loop ms df = Inr (fold level_out ms df)"
proof (induction ms arbitrary: df)
  case Nil
  show ?case by simp
next
  case (Cons m ms)
  from Cons.prems have h: "list_all (has_col df) (book_names m)" and r: "has_levels df ms"
    by (simp_all add: has_levels_def)
  have "has_levels (level_out m df) ms" using r by (rule has_levels_level_out)
  then have "level_loop ms (level_out m df) = Inr (fold level_out ms (level_out m df))"
    by (rule Cons.IH)
  then show ?case by (simp add: level_step_eq [OF h])
qed

lemma fold_level_out_fields [simp]:
  "index (fold level_out ms df) = index df" "ts_event (fold level_out ms df) = ts_event df"
  "symbol (fold level_out ms df) = symbol df"
  by (induction ms arbitrary: df) simp_all

lemma flow_of_fold [simp]: "flow_of (fold level_out ms df) s m = flow_of df s m"
  by (induction ms arbitrary: df) simp_all

lemma ofi_of_fold [simp]: "ofi_of (fold level_out ms df) m = ofi_of df m"
  by (induction ms arbitrary: df) simp_all

lemma flow_of_cong: "fmt02 m = fmt02 m' \<Longrightarrow> flow_of df s m = flow_of df s m'"
  by (simp add: flow_of_def px_name_def sz_name_def)

lemma ofi_of_cong: "fmt02 m = fmt02 m' \<Longrightarrow> ofi_of df m = ofi_of df m'"
  by (simp add: ofi_of_def flow_of_cong [of m m'])

lemma fold_ofi_col:
  "m \<in> set ms \<Longrightarrow> map_of (cols (fold level_out ms df)) (ofi_name m) = Some (ofi_of df m)"
proof (induction ms rule: rev_induct)
  case Nil
  then show ?case by simp
next
  case (snoc m' ms)
  show ?case
  proof (cases "ofi_name m = ofi_name m'")
    case True
    then have "fmt02 m' = fmt02 m" by (simp add: name_eq_iff)
    then have "ofi_of df m' = ofi_of df m" by (rule ofi_of_cong)
    with True show ?thesis by (simp add: map_of_level_out)
  next
    case False
    then have "m \<noteq> m'" by auto
    with snoc.prems have "m \<in> set ms" by simp
    then have "map_of (cols (fold level_out ms df)) (ofi_name m) = Some (ofi_of df m)"
      by (rule snoc.IH)
    with False show ?thesis
      using derived_distinct(2) [of Ask m' m] derived_distinct(2) [of Bid m' m]
      by (simp add: map_of_level_out)
  qed
qed

lemma fold_book_col:
  "map_of (cols (fold level_out ms df)) (px_name s m) = map_of (cols df) (px_name s m)"
  "map_of (cols (fold level_out ms df)) (sz_name s m) = map_of (cols df) (sz_name s m)"
  by (induction ms arbitrary: df) (simp_all add: map_of_level_out book_not_derived)

lemma has_levels_fold: "has_levels (fold level_out ms df) ms' = has_levels df ms'"
  by (cases "ms'")
    (simp_all add: has_levels_def book_names_def has_col_def fold_book_col list_all_iff)

lemma update_fresh: "k \<notin> fst ` set al \<Longrightarrow> AList.update k v al = al @ [(k, v)]"
  by (induction al) auto

lemma map_fst_new_cols: "map fst (new_cols df m) = derived_names m"
  by (simp add: new_cols_def derived_names_def)

lemma level_out_append:
  assumes "set (derived_names m) \<inter> fst ` set (cols df) = {}"
  shows "cols (level_out m df) = cols df @ new_cols df m"
proof -
  from assms have f: "of_name Bid m \<notin> fst ` set (cols df)" "of_name Ask m \<notin> fst ` set (cols df)"
    "ofi_name m \<notin> fst ` set (cols df)"
    by (auto simp: derived_names_def)
  have 1: "AList.update (of_name Bid m) (flow_of df Bid m) (cols df) =
      cols df @ [(of_name Bid m, flow_of df Bid m)]"
    using f(1) by (rule update_fresh)
  have 2: "AList.update (of_name Ask m) (flow_of df Ask m) (cols df @ [(of_name Bid m, flow_of df Bid m)]) =
      (cols df @ [(of_name Bid m, flow_of df Bid m)]) @ [(of_name Ask m, flow_of df Ask m)]"
    by (rule update_fresh) (use f(2) derived_distinct(1) [of m m] in auto)
  have 3: "AList.update (ofi_name m) (ofi_of df m)
       ((cols df @ [(of_name Bid m, flow_of df Bid m)]) @ [(of_name Ask m, flow_of df Ask m)]) =
      ((cols df @ [(of_name Bid m, flow_of df Bid m)]) @ [(of_name Ask m, flow_of df Ask m)]) @
        [(ofi_name m, ofi_of df m)]"
    by (rule update_fresh)
      (use f(3) derived_distinct(2) [of Bid m m] derived_distinct(2) [of Ask m m] in auto)
  have "cols (level_out m df) =
      AList.update (ofi_name m) (ofi_of df m)
        (AList.update (of_name Ask m) (flow_of df Ask m)
          (AList.update (of_name Bid m) (flow_of df Bid m) (cols df)))"
    by (simp add: level_out_def setcol_def)
  also have "\<dots> = ((cols df @ [(of_name Bid m, flow_of df Bid m)]) @
      [(of_name Ask m, flow_of df Ask m)]) @ [(ofi_name m, ofi_of df m)]"
    by (simp only: 1 2 3)
  finally show ?thesis by (simp add: new_cols_def)
qed

lemma derived_names_disjoint:
  assumes "m < 100" "m' < 100" "m \<noteq> m'"
  shows "set (derived_names m) \<inter> set (derived_names m') = {}"
proof -
  have "fmt02 m \<noteq> fmt02 m'" using assms fmt02_inj by blast
  then show ?thesis
    using derived_distinct(1) [of m m'] derived_distinct(1) [of m' m]
      derived_distinct(2) [of Bid m m'] derived_distinct(2) [of Ask m m']
      derived_distinct(2) [of Bid m' m] derived_distinct(2) [of Ask m' m]
    by (auto simp: derived_names_def name_eq_iff)
qed

lemma map_fst_concat_new: "map fst (concat (map (new_cols df) ms)) = concat (map derived_names ms)"
  by (induction ms) (simp_all add: map_fst_new_cols)

lemma fold_level_out_append:
  assumes "distinct ms" and "list_all (\<lambda>m. m < 100) ms"
    and "set (concat (map derived_names ms)) \<inter> fst ` set (cols df) = {}"
  shows "cols (fold level_out ms df) = cols df @ concat (map (new_cols df) ms)"
  using assms
proof (induction ms rule: rev_induct)
  case Nil
  show ?case by simp
next
  case (snoc m ms)
  let ?X = "fold level_out ms df"
  from snoc.prems have d: "distinct ms" "m \<notin> set ms" and b: "list_all (\<lambda>m. m < 100) ms" "m < 100"
    and dj: "set (concat (map derived_names ms)) \<inter> fst ` set (cols df) = {}"
      "set (derived_names m) \<inter> fst ` set (cols df) = {}"
    by auto
  have IH: "cols ?X = cols df @ concat (map (new_cols df) ms)"
    using d(1) b(1) dj(1) by (rule snoc.IH)
  have "map fst (cols ?X) = map fst (cols df) @ concat (map derived_names ms)"
    unfolding IH by (simp add: map_fst_concat_new)
  then have "set (map fst (cols ?X)) = set (map fst (cols df) @ concat (map derived_names ms))"
    by (rule arg_cong)
  then have keys: "fst ` set (cols ?X) = fst ` set (cols df) \<union> set (concat (map derived_names ms))"
    by simp
  have "set (derived_names m) \<inter> set (concat (map derived_names ms)) = {}"
  proof -
    have "set (derived_names m) \<inter> set (derived_names m') = {}" if "m' \<in> set ms" for m'
    proof -
      from that b(1) have "m' < 100" by (simp add: list_all_iff)
      moreover from that d(2) have "m \<noteq> m'" by auto
      ultimately show ?thesis using b(2) by (intro derived_names_disjoint)
    qed
    then show ?thesis by auto
  qed
  with dj(2) have "set (derived_names m) \<inter> fst ` set (cols ?X) = {}"
    unfolding keys by blast
  then have "cols (level_out m ?X) = cols ?X @ new_cols ?X m" by (rule level_out_append)
  moreover have "new_cols ?X m = new_cols df m" by (simp add: new_cols_def)
  ultimately show ?case by (simp add: IH)
qed

lemma LEVELS_props: "distinct LEVELS" "list_all (\<lambda>m. m < 100) LEVELS" "length LEVELS = 10"
  "set LEVELS = {..<10}"
  by (auto simp: LEVELS_def list_all_iff)

lemma add_level_ofi_eq:
  "has_book_cols df \<Longrightarrow> add_level_ofi df = Inr (fold level_out LEVELS df)"
  by (simp add: add_level_ofi_def has_book_cols_def level_loop_eq)

lemma length_concat_new: "length (concat (map (new_cols df) ms)) = 3 * length ms"
  by (induction ms) (simp_all add: new_cols_def)

subsection \<open>Resampling and aggregation\<close>

lemma has_col_iff: "has_col df n \<longleftrightarrow> n \<in> set (colnames df)"
  by (simp add: has_col_def colnames_def map_of_eq_None_iff)

lemma map_fst_level_book: "map fst (level_book bp bs ap as m) = book_names m"
  by (simp add: level_book_def book_names_def)

lemma map_fst_concat_book:
  "map fst (concat (map (level_book bp bs ap as) ms)) = concat (map book_names ms)"
  by (induction ms) (simp_all add: map_fst_level_book)

lemma has_levels_iff:
  "has_levels df ms \<longleftrightarrow> set (concat (map book_names ms)) \<subseteq> set (colnames df)"
  by (auto simp: has_levels_def list_all_iff has_col_iff)

lemma book_derived_disjoint: "set (derived_names m) \<inter> set (book_names m') = {}"
  using book_not_derived(1) [of Bid m' Bid m] book_not_derived(1) [of Bid m' Ask m]
    book_not_derived(1) [of Ask m' Bid m] book_not_derived(1) [of Ask m' Ask m]
    book_not_derived(2) [of Bid m' Bid m] book_not_derived(2) [of Bid m' Ask m]
    book_not_derived(2) [of Ask m' Bid m] book_not_derived(2) [of Ask m' Ask m]
    book_not_derived(3) [of Bid m' m] book_not_derived(3) [of Ask m' m]
    book_not_derived(4) [of Bid m' m] book_not_derived(4) [of Ask m' m]
  by (auto simp: derived_names_def book_names_def)

lemma all_derived_not_book:
  "set (concat (map derived_names ms)) \<inter> set (concat (map book_names ms')) = {}"
  using book_derived_disjoint by fastforce

lemma ex_book_colnames: "colnames ex_book = concat (map book_names LEVELS)"
  by (simp add: colnames_def ex_book_def map_fst_concat_book)

lemma ex_book_has: "has_book_cols ex_book"
  by (simp add: has_book_cols_def has_levels_iff ex_book_colnames)

lemma ex_book_fresh: "set all_derived_names \<inter> set (colnames ex_book) = {}"
  unfolding all_derived_names_def ex_book_colnames by (rule all_derived_not_book)

lemma floor_label_bounds:
  assumes "0 < w"
  shows "floor_label origin w t \<le> t" "t < floor_label origin w t + w"
proof -
  have "t - origin = (t - origin) div w * w + (t - origin) mod w" by simp
  moreover have "0 \<le> (t - origin) mod w" using assms by simp
  ultimately have "(t - origin) div w * w \<le> t - origin" by linarith
  then show "floor_label origin w t \<le> t" by (simp add: floor_label_def)
  have "t - origin = (t - origin) div w * w + (t - origin) mod w" by simp
  moreover have "(t - origin) mod w < w" using assms by simp
  ultimately have "t - origin < (t - origin) div w * w + w" by linarith
  then show "t < floor_label origin w t + w" by (simp add: floor_label_def)
qed

lemma in_bucket_floor_label: "0 < w \<Longrightarrow> in_bucket w (floor_label origin w t) t"
  by (simp add: in_bucket_def floor_label_bounds)

lemma fold_min_Min: "fold min xs (x::int) = Min (set (x # xs))"
  by (rule Min.set_eq_fold [symmetric])

lemma fold_max_Max: "fold max xs (x::int) = Max (set (x # xs))"
  by (rule Max.set_eq_fold [symmetric])

lemma bin_labels_Cons:
  "bin_labels w (t # rest) =
     (let first = Min (set (t # rest)); last = Max (set (t # rest));
          origin = (first div DAY) * DAY;
          lo = floor_label origin w first; hi = floor_label origin w last
      in map (\<lambda>k. lo + int k * w) [0..<nat ((hi - lo) div w) + 1])"
  by (simp add: bin_labels_def fold_min_Min fold_max_Max del: set_simps)

lemma bin_labels_sorted:
  assumes "0 < w"
  shows "sorted (bin_labels w ts)" "distinct (bin_labels w ts)"
proof -
  have s: "sorted (map (\<lambda>k. lo + int k * w) [0..<n])" for lo n
    using assms by (simp add: sorted_map sorted_wrt_iff_nth_less)
  have d: "distinct (map (\<lambda>k. lo + int k * w) [0..<n])" for lo n
    using assms by (simp add: distinct_map inj_on_def)
  show "sorted (bin_labels w ts)"
    by (cases ts) (simp_all add: bin_labels_def Let_def s del: upt_Suc)
  show "distinct (bin_labels w ts)"
    by (cases ts) (simp_all add: bin_labels_def Let_def d del: upt_Suc)
qed

lemma bin_labels_cover:
  assumes w: "0 < w" and t: "t \<in> set ts"
  shows "\<exists>b \<in> set (bin_labels w ts). in_bucket w b t"
proof -
  from t obtain t0 rest where ts: "ts = t0 # rest" by (cases ts) auto
  define first where "first = Min (set ts)"
  define last where "last = Max (set ts)"
  define origin where "origin = (first div DAY) * DAY"
  define lo where "lo = floor_label origin w first"
  define hi where "hi = floor_label origin w last"
  have ft: "first \<le> t" and tl: "t \<le> last"
    using t by (simp_all add: first_def last_def)
  let ?q = "\<lambda>x. (x - origin) div w"
  have q1: "?q first \<le> ?q t" using ft w by (simp add: zdiv_mono1)
  have q2: "?q t \<le> ?q last" using tl w by (simp add: zdiv_mono1)
  have hl: "hi - lo = (?q last - ?q first) * w"
    by (simp add: hi_def lo_def floor_label_def algebra_simps)
  have n: "(hi - lo) div w = ?q last - ?q first" using w by (simp add: hl)
  define k where "k = nat (?q t - ?q first)"
  have k: "int k = ?q t - ?q first" using q1 by (simp add: k_def)
  have kn: "k < nat ((hi - lo) div w) + 1" using q1 q2 by (simp add: n k_def)
  have b: "lo + int k * w = floor_label origin w t"
    by (simp add: k lo_def floor_label_def algebra_simps)
  have "bin_labels w ts = map (\<lambda>k. lo + int k * w) [0..<nat ((hi - lo) div w) + 1]"
    unfolding ts bin_labels_Cons
    by (simp add: Let_def lo_def hi_def origin_def first_def last_def ts del: set_simps upt_Suc)
  then have "floor_label origin w t \<in> set (bin_labels w ts)"
    using kn b by (auto simp del: upt_Suc intro!: image_eqI [where x = k])
  then show ?thesis using in_bucket_floor_label [OF w] by blast
qed


lemma bucket_vals_index:
  assumes "length c = length ts"
  shows "bucket_vals w ts c b = map (\<lambda>i. c ! i) (filter (\<lambda>i. in_bucket w b (ts ! i)) [0..<length ts])"
proof -
  have z: "zip ts c = map (\<lambda>i. (ts ! i, c ! i)) [0..<length ts]"
    using assms by (intro nth_equalityI) simp_all
  show ?thesis
    unfolding bucket_vals_def z by (simp add: filter_map comp_def)
qed

lemma select_cols_ok:
  "list_all (has_col df) ns \<Longrightarrow> select_cols df ns = Inr (map (\<lambda>n. (n, col df n)) ns)"
  by (simp add: select_cols_def list_all_iff has_col_def filter_empty_conv col_def)

lemma wf_col_length:
  assumes "wf_frame df" and "has_col df n"
  shows "length (col df n) = length (index df)"
  using assms wf_frame_col_length getcol_col by blast

lemma bucket_vals_cells:
  assumes "wf_frame df" and "has_col df n"
  shows "bucket_vals w (ts_event df) (col df n) b = bucket_cells df w n b"
proof -
  have l: "length (col df n) = length (ts_event df)" "length (ts_event df) = length (index df)"
    using assms by (simp_all add: wf_col_length wf_frame_def)
  show ?thesis
    by (simp add: bucket_vals_index [OF l(1)] bucket_cells_def l(2))
qed

lemma labels_dropna: "labels (dropna t) = map fst (filter (\<lambda>r. \<not> list_ex isna (snd r)) (trows t))"
  by (simp add: labels_def dropna_def)

lemma sorted_map_fst_filter: "sorted (map fst xs) \<Longrightarrow> sorted (map fst (filter P xs))"
  by (induction xs) auto

lemma distinct_map_fst_filter: "distinct (map fst xs) \<Longrightarrow> distinct (map fst (filter P xs))"
  by (induction xs) auto

lemma labels_resample [simp]: "labels (resample_agg agg w ts cs) = bin_labels w ts"
  by (simp add: labels_def resample_agg_def comp_def)

lemma labels_dropna_resample:
  assumes "0 < w"
  shows "sorted (labels (dropna (resample_agg agg w ts cs)))"
    "distinct (labels (dropna (resample_agg agg w ts cs)))"
proof -
  have s: "sorted (map fst (trows (resample_agg agg w ts cs)))"
    and d: "distinct (map fst (trows (resample_agg agg w ts cs)))"
    using bin_labels_sorted [OF assms, of ts] labels_resample [of agg w ts cs]
    by (simp_all add: labels_def)
  show "sorted (labels (dropna (resample_agg agg w ts cs)))"
    unfolding labels_dropna using s by (rule sorted_map_fst_filter)
  show "distinct (labels (dropna (resample_agg agg w ts cs)))"
    unfolding labels_dropna using d by (rule distinct_map_fst_filter)
qed

lemma trows_dropna_resample:
  "r \<in> set (trows (dropna (resample_agg agg w ts cs))) \<longleftrightarrow>
     fst r \<in> set (bin_labels w ts) \<and>
     snd r = map (\<lambda>nc. agg (bucket_vals w ts (snd nc) (fst r))) cs \<and>
     \<not> list_ex isna (snd r)"
  by (cases r) (auto simp: dropna_def resample_agg_def)

lemma tcols_dropna_resample [simp]: "tcols (dropna (resample_agg agg w ts cs)) = map fst cs"
  by (simp add: dropna_def resample_agg_def)

lemma sum_min_count1_eq:
  "sum_min_count1 xs = (if notna xs = [] then NaN else fl_sum (notna xs))"
  by (cases "notna xs") (simp_all add: sum_min_count1_def)

lemma foldl_fl_add_Fin:
  "list_all is_fin xs \<Longrightarrow> foldl fl_add (Fin a) xs = Fin (a + sum_list (map fl_val xs))"
proof (induction xs arbitrary: a)
  case Nil
  show ?case by simp
next
  case (Cons x xs)
  then obtain b where x: "x = Fin b" by (cases x) auto
  from Cons.prems have "list_all is_fin xs" by simp
  then have "foldl fl_add (Fin (a + b)) xs = Fin (a + b + sum_list (map fl_val xs))"
    by (rule Cons.IH)
  then show ?case by (simp add: x add.assoc)
qed

lemma fl_sum_finite: "list_all is_fin xs \<Longrightarrow> fl_sum xs = Fin (sum_list (map fl_val xs))"
  by (simp add: fl_sum_def foldl_fl_add_Fin)

lemma notna_finite: "list_all is_fin xs \<Longrightarrow> notna xs = xs"
  by (induction xs) (auto simp: notna_def isna_def)

lemma ofi_bar_ok:
  assumes "has_ofi_cols df" and "0 < w"
  shows "ofi_bar df w =
    Inr (dropna (resample_agg sum_min_count1 w (ts_event df) (map (\<lambda>n. (n, col df n)) ofi_cols)))"
  using assms by (simp add: ofi_bar_def has_ofi_cols_def select_cols_ok)

lemma has_ofi_col: "has_ofi_cols df \<Longrightarrow> m \<in> set LEVELS \<Longrightarrow> has_col df (ofi_name m)"
  by (simp add: has_ofi_cols_def ofi_cols_def list_all_iff)

lemma in_bucket_cells_nonempty:
  assumes wf: "wf_frame df" and t: "t \<in> set (ts_event df)" and b: "in_bucket w b t"
  shows "bucket_cells df w n b \<noteq> []"
proof -
  from t obtain i where i: "i < length (ts_event df)" "ts_event df ! i = t"
    by (auto simp: in_set_conv_nth)
  with wf have "i < length (index df)" by (simp add: wf_frame_def)
  with i b have "i \<in> set (filter (\<lambda>i. in_bucket w b (ts_event df ! i)) [0..<length (index df)])"
    by simp
  then have "filter (\<lambda>i. in_bucket w b (ts_event df ! i)) [0..<length (index df)] \<noteq> []"
    by (metis empty_iff empty_set)
  then show ?thesis by (simp add: bucket_cells_def)
qed

lemma bucket_cells_subset:
  assumes "wf_frame df" and "has_col df n"
  shows "set (bucket_cells df w n b) \<subseteq> set (col df n)"
  using wf_col_length [OF assms] by (auto simp: bucket_cells_def)

lemma bucket_cells_finite:
  assumes "wf_frame df" and "has_col df n" and "list_all is_fin (col df n)"
  shows "list_all is_fin (bucket_cells df w n b)"
  using bucket_cells_subset [OF assms(1,2)] assms(3) by (auto simp: list_all_iff)

lemma bar_row:
  assumes wf: "wf_frame df" and h: "has_ofi_cols df"
  shows "map (\<lambda>nc. sum_min_count1 (bucket_vals w (ts_event df) (snd nc) b))
           (map (\<lambda>n. (n, col df n)) ofi_cols) =
         map (\<lambda>m. sum_min_count1 (bucket_cells df w (ofi_name m) b)) LEVELS"
  using has_ofi_col [OF h] by (simp add: ofi_cols_def comp_def bucket_vals_cells [OF wf])

lemma depth_out_fields [simp]:
  "index (depth_out m df) = index df" "ts_event (depth_out m df) = ts_event df"
  "symbol (depth_out m df) = symbol df"
  by (simp_all add: depth_out_def)

lemma map_of_depth_out:
  "map_of (cols (depth_out m df)) n =
     (if n = depth_name m then Some (depth_of df m) else map_of (cols df) n)"
  by (simp add: depth_out_def map_of_setcol)

lemma col_depth_out_sz [simp]: "col (depth_out m df) (sz_name s m') = col df (sz_name s m')"
  by (simp add: col_def map_of_depth_out book_not_derived)

lemma depth_of_depth_out [simp]: "depth_of (depth_out m df) m' = depth_of df m'"
  by (simp add: depth_of_def)

lemma has_col_depth_out: "has_col df n \<Longrightarrow> has_col (depth_out m df) n"
  by (simp add: has_col_def map_of_depth_out)

lemma depth_loop_eq:
  "list_all (\<lambda>m. has_col df (sz_name Bid m) \<and> has_col df (sz_name Ask m)) ms \<Longrightarrow>
     depth_loop ms df = (fold depth_out ms df, None)"
proof (induction ms arbitrary: df)
  case Nil
  show ?case by simp
next
  case (Cons m ms)
  from Cons.prems have h: "has_col df (sz_name Bid m)" "has_col df (sz_name Ask m)"
    and r: "list_all (\<lambda>m. has_col df (sz_name Bid m) \<and> has_col df (sz_name Ask m)) ms"
    by simp_all
  from r have "list_all (\<lambda>m'. has_col (depth_out m df) (sz_name Bid m') \<and>
      has_col (depth_out m df) (sz_name Ask m')) ms"
    by (auto simp: list_all_iff intro: has_col_depth_out)
  then have "depth_loop ms (depth_out m df) = (fold depth_out ms (depth_out m df), None)"
    by (rule Cons.IH)
  moreover have "setcol df (depth_name m)
      (map2 fl_add (col df (sz_name Bid m)) (col df (sz_name Ask m))) = depth_out m df"
    by (simp add: depth_out_def depth_of_def)
  ultimately show ?case
    by (simp add: getcol_col h)
qed

lemma fold_depth_out_fields [simp]:
  "index (fold depth_out ms df) = index df" "ts_event (fold depth_out ms df) = ts_event df"
  "symbol (fold depth_out ms df) = symbol df"
  by (induction ms arbitrary: df) simp_all

lemma depth_of_fold [simp]: "depth_of (fold depth_out ms df) m = depth_of df m"
  by (induction ms arbitrary: df) simp_all

lemma depth_of_cong: "fmt02 m = fmt02 m' \<Longrightarrow> depth_of df m = depth_of df m'"
  by (simp add: depth_of_def sz_name_def)

lemma fold_depth_col:
  "m \<in> set ms \<Longrightarrow> map_of (cols (fold depth_out ms df)) (depth_name m) = Some (depth_of df m)"
proof (induction ms rule: rev_induct)
  case Nil
  then show ?case by simp
next
  case (snoc m' ms)
  show ?case
  proof (cases "depth_name m = depth_name m'")
    case True
    then have "fmt02 m' = fmt02 m" by (simp add: name_eq_iff)
    then have "depth_of df m' = depth_of df m" by (rule depth_of_cong)
    with True show ?thesis by (simp add: map_of_depth_out)
  next
    case False
    then have "m \<noteq> m'" by auto
    with snoc.prems have "m \<in> set ms" by simp
    then have "map_of (cols (fold depth_out ms df)) (depth_name m) = Some (depth_of df m)"
      by (rule snoc.IH)
    with False show ?thesis by (simp add: map_of_depth_out)
  qed
qed

lemma fold_depth_other:
  "n \<notin> depth_name ` set ms \<Longrightarrow> map_of (cols (fold depth_out ms df)) n = map_of (cols df) n"
  by (induction ms arbitrary: df) (auto simp: map_of_depth_out)

lemma depth_table_fold:
  "depth_table (fold depth_out LEVELS df) w =
     Inr (dropna (resample_agg mean_skipna w (ts_event df)
       (map (\<lambda>m. (depth_name m, depth_of df m)) LEVELS)))"
proof -
  have c: "col (fold depth_out LEVELS df) (depth_name m) = depth_of df m" if "m \<in> set LEVELS" for m
    using fold_depth_col [OF that] by (simp add: col_def)
  have h: "list_all (has_col (fold depth_out LEVELS df)) depth_cols"
    by (simp add: depth_cols_def list_all_iff has_col_def fold_depth_col)
  have s: "select_cols (fold depth_out LEVELS df) depth_cols =
      Inr (map (\<lambda>n. (n, col (fold depth_out LEVELS df) n)) depth_cols)"
    using h by (rule select_cols_ok)
  have m: "map (\<lambda>n. (n, col (fold depth_out LEVELS df) n)) depth_cols =
      map (\<lambda>m. (depth_name m, depth_of df m)) LEVELS"
    by (simp add: depth_cols_def c comp_def cong: map_cong)
  show ?thesis
    by (simp add: depth_table_def s m)
qed

lemma depth_vals_cells:
  assumes wf: "wf_frame df" and h: "has_col df (sz_name Bid m)" "has_col df (sz_name Ask m)"
  shows "bucket_vals w (ts_event df) (depth_of df m) b = depth_cells df w m b"
proof -
  have l: "length (col df (sz_name Bid m)) = length (index df)"
    "length (col df (sz_name Ask m)) = length (index df)"
    "length (ts_event df) = length (index df)"
    using wf h by (simp_all add: wf_col_length wf_frame_def)
  have ld: "length (depth_of df m) = length (ts_event df)"
    by (simp add: depth_of_def l)
  have "map (\<lambda>i. depth_of df m ! i) (filter P [0..<length (index df)]) =
      map (\<lambda>i. fl_add (col df (sz_name Bid m) ! i) (col df (sz_name Ask m) ! i))
        (filter P [0..<length (index df)])" for P
    by (rule map_cong) (simp_all add: depth_of_def l)
  then show ?thesis
    by (simp add: bucket_vals_index [OF ld] depth_cells_def l(3))
qed

lemma has_size_col:
  "has_size_cols df \<Longrightarrow> m \<in> set LEVELS \<Longrightarrow>
     has_col df (sz_name Bid m) \<and> has_col df (sz_name Ask m)"
  by (simp add: has_size_cols_def list_all_iff)

lemma depth_row:
  assumes wf: "wf_frame df" and h: "has_size_cols df"
  shows "map (\<lambda>nc. mean_skipna (bucket_vals w (ts_event df) (snd nc) b))
           (map (\<lambda>m. (depth_name m, depth_of df m)) LEVELS) = spec_depth_row df w b"
  using has_size_col [OF h]
  by (simp add: spec_depth_row_def comp_def depth_vals_cells [OF wf])

lemma bar_rows_iff:
  assumes wf: "wf_frame df" and h: "has_ofi_cols df"
  shows "r \<in> set (trows (dropna (resample_agg sum_min_count1 w (ts_event df)
            (map (\<lambda>n. (n, col df n)) ofi_cols)))) \<longleftrightarrow>
         has_bar df w (fst r) \<and> snd r = spec_bar_row df w (fst r)"
  unfolding trows_dropna_resample bar_row [OF wf h] has_bar_def spec_bar_row_def by auto

lemma depth_rows_iff:
  assumes wf: "wf_frame df" and h: "has_size_cols df"
  shows "r \<in> set (trows (dropna (resample_agg mean_skipna w (ts_event df)
            (map (\<lambda>m. (depth_name m, depth_of df m)) LEVELS)))) \<longleftrightarrow>
         has_depth df w (fst r) \<and> snd r = spec_depth_row df w (fst r)"
  unfolding trows_dropna_resample depth_row [OF wf h] has_depth_def by auto

lemma map_of_rows:
  assumes d: "distinct (map fst rows)"
    and iff: "\<And>r. r \<in> set rows \<longleftrightarrow> P (fst r) \<and> snd r = f (fst r)"
  shows "map_of rows b = (if P b then Some (f b) else None)"
proof (cases "P b")
  case True
  then have "(b, f b) \<in> set rows" using iff [of "(b, f b)"] by simp
  with d have "map_of rows b = Some (f b)" by (simp add: map_of_eq_Some_iff)
  with True show ?thesis by simp
next
  case False
  have "b \<notin> fst ` set rows"
  proof
    assume "b \<in> fst ` set rows"
    then obtain r where "r \<in> set rows" "fst r = b" by auto
    with iff [of r] False show False by simp
  qed
  then have "map_of rows b = None" by (simp add: map_of_eq_None_iff)
  with False show ?thesis by simp
qed

lemma set_labels_rows:
  assumes iff: "\<And>r. r \<in> set rows \<longleftrightarrow> P (fst r) \<and> snd r = f (fst r)"
  shows "set (map fst rows) = {b. P b}"
proof (intro set_eqI iffI)
  fix b assume "b \<in> set (map fst rows)"
  then obtain r where "r \<in> set rows" "fst r = b" by auto
  with iff [of r] show "b \<in> {b. P b}" by simp
next
  fix b assume "b \<in> {b. P b}"
  then have "(b, f b) \<in> set rows" using iff [of "(b, f b)"] by simp
  then show "b \<in> set (map fst rows)" by force
qed

lemma map_of_depth_bar:
  "map_of (depth_bar_of depth) b =
     map_option (\<lambda>ds. fl_div (mean_skipna ds) (Fin 2)) (map_of (trows depth) b)"
proof -
  have "depth_bar_of depth = map (\<lambda>(k, v). (k, fl_div (mean_skipna v) (Fin 2))) (trows depth)"
    by (simp add: depth_bar_of_def case_prod_unfold)
  then show ?thesis by (simp add: map_of_map)
qed

lemma labels_div_axis0:
  "labels (div_axis0 bar d) =
     (if labels bar = map fst d then labels bar else sort (remdups (labels bar @ map fst d)))"
  by (simp add: div_axis0_def Let_def labels_def comp_def)

lemma div_axis0_labels_props:
  assumes "sorted (labels bar)" "distinct (labels bar)"
  shows "sorted (labels (div_axis0 bar d))" "distinct (labels (div_axis0 bar d))"
    "set (labels (div_axis0 bar d)) = set (labels bar) \<union> set (map fst d)"
  using assms by (auto simp: labels_div_axis0)

lemma div_axis0_row:
  assumes "r \<in> set (trows (div_axis0 bar d))"
  shows "snd r =
     (case map_of (trows bar) (fst r) of
        None \<Rightarrow> replicate (length (tcols bar)) NaN
      | Some vs \<Rightarrow>
          (case map_of d (fst r) of
             None \<Rightarrow> replicate (length (tcols bar)) NaN
           | Some x \<Rightarrow> map (\<lambda>v. fl_div v x) vs))"
  using assms by (cases r) (auto simp: div_axis0_def Let_def split: option.splits)

lemma length_ofi_cols [simp]: "length ofi_cols = 10"
  by (simp add: ofi_cols_def LEVELS_def)

lemma aggregate_ofi_normalised:
  assumes wf: "wf_frame df" and h: "has_ofi_cols df" and hs: "has_size_cols df" and w: "0 < w"
  shows "\<exists>res. aggregate_ofi df w True = (fold depth_out LEVELS df, Inr res) \<and>
      tcols res = ofi_cols \<and> sorted (labels res) \<and> distinct (labels res) \<and>
      set (labels res) = {b. has_bar df w b \<or> has_depth df w b} \<and>
      (\<forall>r \<in> set (trows res). snd r = norm_row df w (fst r))"
proof -
  define bar where "bar = dropna (resample_agg sum_min_count1 w (ts_event df)
      (map (\<lambda>n. (n, col df n)) ofi_cols))"
  define depth where "depth = dropna (resample_agg mean_skipna w (ts_event df)
      (map (\<lambda>m. (depth_name m, depth_of df m)) LEVELS))"
  define res where "res = div_axis0 bar (depth_bar_of depth)"
  have ob: "ofi_bar df w = Inr bar" unfolding bar_def using h w by (rule ofi_bar_ok)
  have dl: "depth_loop LEVELS df = (fold depth_out LEVELS df, None)"
    using hs unfolding has_size_cols_def by (rule depth_loop_eq)
  have dt: "depth_table (fold depth_out LEVELS df) w = Inr depth"
    unfolding depth_def by (rule depth_table_fold)
  have agg: "aggregate_ofi df w True = (fold depth_out LEVELS df, Inr res)"
    by (simp add: aggregate_ofi_def ob dl dt res_def)
  have tc: "tcols bar = ofi_cols" by (simp add: bar_def comp_def)
  have bsd: "sorted (labels bar)" "distinct (labels bar)"
    unfolding bar_def by (rule labels_dropna_resample [OF w])+
  have dsd: "distinct (labels depth)"
    unfolding depth_def by (rule labels_dropna_resample [OF w])
  have bi: "r \<in> set (trows bar) \<longleftrightarrow> has_bar df w (fst r) \<and> snd r = spec_bar_row df w (fst r)" for r
    unfolding bar_def by (rule bar_rows_iff [OF wf h])
  have di: "r \<in> set (trows depth) \<longleftrightarrow> has_depth df w (fst r) \<and> snd r = spec_depth_row df w (fst r)" for r
    unfolding depth_def by (rule depth_rows_iff [OF wf hs])
  have mb: "map_of (trows bar) b = (if has_bar df w b then Some (spec_bar_row df w b) else None)" for b
    using bsd(2) bi unfolding labels_def by (rule map_of_rows)
  have md': "map_of (trows depth) b = (if has_depth df w b then Some (spec_depth_row df w b) else None)" for b
    using dsd di unfolding labels_def by (rule map_of_rows)
  have md: "map_of (depth_bar_of depth) b =
      (if has_depth df w b then Some (spec_divisor df w b) else None)" for b
    by (simp add: map_of_depth_bar md' spec_divisor_def)
  have lb: "set (labels bar) = {b. has_bar df w b}"
    unfolding labels_def using bi by (rule set_labels_rows)
  have ld: "set (map fst (depth_bar_of depth)) = {b. has_depth df w b}"
  proof -
    have "map fst (depth_bar_of depth) = map fst (trows depth)"
      by (simp add: depth_bar_of_def comp_def)
    moreover have "set (map fst (trows depth)) = {b. has_depth df w b}"
      using di by (rule set_labels_rows)
    ultimately show ?thesis by simp
  qed
  have 1: "tcols res = ofi_cols" by (simp add: res_def div_axis0_def Let_def tc)
  have 2: "sorted (labels res)" "distinct (labels res)"
    unfolding res_def using bsd by (rule div_axis0_labels_props)+
  have 3: "set (labels res) = {b. has_bar df w b \<or> has_depth df w b}"
    unfolding res_def div_axis0_labels_props(3) [OF bsd] lb ld by blast
  have 4: "snd r = norm_row df w (fst r)" if "r \<in> set (trows res)" for r
    using div_axis0_row [OF that [unfolded res_def]]
    by (simp add: mb md tc norm_row_def)
  from agg 1 2 3 4 show ?thesis by blast
qed

subsection \<open>The columns that the level-flow stage adds\<close>

lemma book_names_distinct:
  "px_name s m \<noteq> sz_name s' m'" "px_name Bid m \<noteq> px_name Ask m'" "sz_name Bid m \<noteq> sz_name Ask m'"
  by (cases s; cases s'; simp add: px_name_def sz_name_def)+

lemma map_of_level_book:
  "map_of (level_book bp bs ap as m) n =
     (if n = px_name Bid m then Some bp else if n = sz_name Bid m then Some bs
      else if n = px_name Ask m then Some ap else if n = sz_name Ask m then Some as else None)"
  by (simp add: level_book_def)

lemma book_name_fmt:
  "px_name s m = px_name s m' \<longleftrightarrow> fmt02 m = fmt02 m'"
  "sz_name s m = sz_name s m' \<longleftrightarrow> fmt02 m = fmt02 m'"
  by (simp_all add: px_name_def sz_name_def)

lemma map_of_concat_book:
  assumes "m \<in> set ms"
  shows "map_of (concat (map (level_book bp bs ap as) ms) @ extra) (px_name Bid m) = Some bp"
    "map_of (concat (map (level_book bp bs ap as) ms) @ extra) (sz_name Bid m) = Some bs"
    "map_of (concat (map (level_book bp bs ap as) ms) @ extra) (px_name Ask m) = Some ap"
    "map_of (concat (map (level_book bp bs ap as) ms) @ extra) (sz_name Ask m) = Some as"
  using assms book_names_distinct(2) [of m] book_names_distinct(3) [of m]
    book_names_distinct(2) [of _ m] book_names_distinct(3) [of _ m]
  by (induction ms; auto simp: map_add_def map_of_level_book book_names_distinct
      book_names_distinct [symmetric] split: option.splits)+

lemma uniform_book:
  assumes c: "cols df = concat (map (level_book bp bs ap as) LEVELS) @ extra"
    and m: "m \<in> set LEVELS"
  shows "col df (px_name Bid m) = bp" "col df (sz_name Bid m) = bs"
    "col df (px_name Ask m) = ap" "col df (sz_name Ask m) = as"
    "flow_of df Bid m = flow_series Bid bp bs" "flow_of df Ask m = flow_series Ask ap as"
    "ofi_of df m = map2 fl_sub (flow_series Bid bp bs) (flow_series Ask ap as)"
    "depth_of df m = map2 fl_add bs as"
proof -
  show 1: "col df (px_name Bid m) = bp" "col df (sz_name Bid m) = bs"
    "col df (px_name Ask m) = ap" "col df (sz_name Ask m) = as"
    by (simp_all only: col_def c map_of_concat_book [OF m] option.case)
  then show "flow_of df Bid m = flow_series Bid bp bs" "flow_of df Ask m = flow_series Ask ap as"
    by (simp_all add: flow_of_def)
  then show "ofi_of df m = map2 fl_sub (flow_series Bid bp bs) (flow_series Ask ap as)"
    by (simp add: ofi_of_def)
  show "depth_of df m = map2 fl_add bs as" by (simp add: depth_of_def 1)
qed

lemma uniform_book_has:
  assumes c: "cols df = concat (map (level_book bp bs ap as) LEVELS) @ extra"
  shows "has_book_cols df"
  by (simp add: has_book_cols_def has_levels_iff colnames_def c map_fst_concat_book)

lemma ex_book_cols: "cols ex_book = concat (map (level_book [Fin 100, Fin 101, Fin 101]
    [Fin 5, Fin 7, Fin 4] [Fin 103, Fin 102, Fin 102] [Fin 8, Fin 3, Fin 9]) LEVELS) @ []"
  by (simp add: ex_book_def)

lemma ex_rerun_cols: "cols ex_rerun = concat (map (level_book [Fin 100, Fin 101, Fin 101]
    [Fin 5, Fin 7, Fin 4] [Fin 103, Fin 102, Fin 102] [Fin 8, Fin 3, Fin 9]) LEVELS) @
      [(''ofi_00'', [Fin 42, Fin 42, Fin 42])]"
  by (simp add: ex_rerun_def ex_book_def)

lemma zero_level: "0 \<in> set LEVELS"
  by (simp add: LEVELS_def)

lemma ofi_name_0: "ofi_name 0 = ''ofi_00''"
  by (simp add: ofi_name_def fmt02_def digits)

lemma ex_flows:
  "flow_series Bid [Fin 100, Fin 101, Fin 101] [Fin 5, Fin 7, Fin 4] = [Fin (- 5), Fin 7, Fin (- 3)]"
  "flow_series Ask [Fin 103, Fin 102, Fin 102] [Fin 8, Fin 3, Fin 9] = [Fin 8, Fin (- 3), Fin 6]"
  by (simp_all add: flow_series_def)

lemma all_derived_names_list:
  "all_derived_names =
     [''of_bid_00'', ''of_ask_00'', ''ofi_00'', ''of_bid_01'', ''of_ask_01'', ''ofi_01'',
      ''of_bid_02'', ''of_ask_02'', ''ofi_02'', ''of_bid_03'', ''of_ask_03'', ''ofi_03'',
      ''of_bid_04'', ''of_ask_04'', ''ofi_04'', ''of_bid_05'', ''of_ask_05'', ''ofi_05'',
      ''of_bid_06'', ''of_ask_06'', ''ofi_06'', ''of_bid_07'', ''of_ask_07'', ''ofi_07'',
      ''of_bid_08'', ''of_ask_08'', ''ofi_08'', ''of_bid_09'', ''of_ask_09'', ''ofi_09'']"
  by code_simp

subsection \<open>The two stages composed, and the example book\<close>

lemma set_update_subset: "set (AList.update k v al) \<subseteq> insert (k, v) (set al)"
  by (induction al) auto

lemma wf_setcol:
  assumes "wf_frame df" and "length c = length (index df)"
  shows "wf_frame (setcol df n c)"
proof -
  have "list_all (\<lambda>nc. length (snd nc) = length (index df)) (AList.update n c (cols df))"
    using assms set_update_subset [of n c "cols df"]
    by (auto simp: list_all_iff wf_frame_def)
  moreover have "distinct (map fst (AList.update n c (cols df)))"
    using assms(1) by (simp add: wf_frame_def colnames_def distinct_update)
  ultimately show ?thesis
    using assms(1) by (simp add: wf_frame_def setcol_def colnames_def)
qed

lemma length_flow_of:
  assumes "wf_frame df" and "has_col df (px_name s m)" and "has_col df (sz_name s m)"
  shows "length (flow_of df s m) = length (index df)"
  using assms by (simp add: flow_of_def wf_col_length)

lemma wf_level_out:
  assumes wf: "wf_frame df" and h: "list_all (has_col df) (book_names m)"
  shows "wf_frame (level_out m df)"
proof -
  from h have hc: "has_col df (px_name Bid m)" "has_col df (sz_name Bid m)"
    "has_col df (px_name Ask m)" "has_col df (sz_name Ask m)"
    by (simp_all add: book_names_def)
  have lb: "length (flow_of df Bid m) = length (index df)"
    using wf hc(1,2) by (rule length_flow_of)
  have la: "length (flow_of df Ask m) = length (index df)"
    using wf hc(3,4) by (rule length_flow_of)
  have lo: "length (ofi_of df m) = length (index df)"
    by (simp add: ofi_of_def lb la)
  have 1: "wf_frame (setcol df (of_name Bid m) (flow_of df Bid m))"
    using wf lb by (rule wf_setcol)
  have 2: "wf_frame (setcol (setcol df (of_name Bid m) (flow_of df Bid m))
      (of_name Ask m) (flow_of df Ask m))"
    using 1 by (rule wf_setcol) (simp add: la)
  show ?thesis
    unfolding level_out_def using 2 by (rule wf_setcol) (simp add: lo)
qed

lemma wf_fold_level_out:
  "wf_frame df \<Longrightarrow> has_levels df ms \<Longrightarrow> wf_frame (fold level_out ms df)"
proof (induction ms arbitrary: df)
  case Nil
  then show ?case by simp
next
  case (Cons m ms)
  from Cons.prems(2) have h: "list_all (has_col df) (book_names m)" and r: "has_levels df ms"
    by (simp_all add: has_levels_def)
  have "wf_frame (level_out m df)" using Cons.prems(1) h by (rule wf_level_out)
  moreover have "has_levels (level_out m df) ms" using r by (rule has_levels_level_out)
  ultimately have "wf_frame (fold level_out ms (level_out m df))" by (rule Cons.IH)
  then show ?case by simp
qed

lemma has_ofi_cols_fold: "has_ofi_cols (fold level_out LEVELS df)"
  by (simp add: has_ofi_cols_def ofi_cols_def list_all_iff has_col_def fold_ofi_col)

lemma has_size_cols_book: "has_book_cols df \<Longrightarrow> has_size_cols df"
  by (simp add: has_book_cols_def has_levels_def has_size_cols_def book_names_def list_all_iff)

lemma has_book_cols_fold: "has_book_cols (fold level_out ms df) = has_book_cols df"
  by (simp add: has_book_cols_def has_levels_fold)

lemma col_fold_ofi: "m \<in> set ms \<Longrightarrow> col (fold level_out ms df) (ofi_name m) = ofi_of df m"
  by (simp add: col_def fold_ofi_col)

lemma col_fold_sz: "col (fold level_out ms df) (sz_name s m) = col df (sz_name s m)"
  by (simp add: col_def fold_book_col)

lemma depth_of_fold_level [simp]: "depth_of (fold level_out ms df) m = depth_of df m"
  by (simp add: depth_of_def col_fold_sz)

lemma ofi_sel_fold:
  "map (\<lambda>n. (n, col (fold level_out LEVELS df) n)) ofi_cols =
     map (\<lambda>m. (ofi_name m, ofi_of df m)) LEVELS"
  by (simp add: ofi_cols_def comp_def col_fold_ofi cong: map_cong)

lemma aggregate_ofi_False_eq:
  assumes "has_ofi_cols df" and "0 < w"
  shows "aggregate_ofi df w False =
     (df, Inr (dropna (resample_agg sum_min_count1 w (ts_event df)
        (map (\<lambda>n. (n, col df n)) ofi_cols))))"
  by (simp add: aggregate_ofi_def ofi_bar_ok [OF assms])

lemma aggregate_ofi_True_eq:
  assumes h: "has_ofi_cols df" and hs: "has_size_cols df" and w: "0 < w"
  shows "aggregate_ofi df w True =
     (fold depth_out LEVELS df,
      Inr (div_axis0
        (dropna (resample_agg sum_min_count1 w (ts_event df) (map (\<lambda>n. (n, col df n)) ofi_cols)))
        (depth_bar_of (dropna (resample_agg mean_skipna w (ts_event df)
          (map (\<lambda>m. (depth_name m, depth_of df m)) LEVELS))))))"
proof -
  have dl: "depth_loop LEVELS df = (fold depth_out LEVELS df, None)"
    using hs unfolding has_size_cols_def by (rule depth_loop_eq)
  show ?thesis
    by (simp add: aggregate_ofi_def ofi_bar_ok [OF h w] dl depth_table_fold)
qed

lemma aggregate_ofi_keeps_input_unnormalised: "fst (aggregate_ofi df w False) = df"
  by (simp add: aggregate_ofi_def split: sum.splits)

lemma msgs_of_eq: "has_book_cols df \<Longrightarrow> msgs_of df = fold level_out LEVELS df"
  by (simp add: msgs_of_def add_level_ofi_eq)

lemma resample_uniform:
  "resample_agg agg w ts (map (\<lambda>m. (f m, v)) ms) =
     \<lparr>tcols = map f ms,
      trows = map (\<lambda>b. (b, replicate (length ms) (agg (bucket_vals w ts v b)))) (bin_labels w ts)\<rparr>"
  by (simp add: resample_agg_def comp_def map_replicate_const)

lemma list_ex_replicate: "list_ex P (replicate n x) \<longleftrightarrow> 0 < n \<and> P x"
  by (induction n) auto

lemma uniform_msgs:
  assumes c: "cols df = concat (map (level_book bp bs ap as) LEVELS) @ extra"
  shows "map (\<lambda>n. (n, col (msgs_of df) n)) ofi_cols =
      map (\<lambda>m. (ofi_name m, map2 fl_sub (flow_series Bid bp bs) (flow_series Ask ap as))) LEVELS"
    "map (\<lambda>m. (depth_name m, depth_of (msgs_of df) m)) LEVELS =
      map (\<lambda>m. (depth_name m, map2 fl_add bs as)) LEVELS"
    "has_ofi_cols (msgs_of df)" "has_size_cols (msgs_of df)"
    "ts_event (msgs_of df) = ts_event df"
proof -
  have h: "has_book_cols df" using c by (rule uniform_book_has)
  note e = msgs_of_eq [OF h]
  show "map (\<lambda>n. (n, col (msgs_of df) n)) ofi_cols =
      map (\<lambda>m. (ofi_name m, map2 fl_sub (flow_series Bid bp bs) (flow_series Ask ap as))) LEVELS"
    unfolding e ofi_sel_fold by (simp add: uniform_book(7) [OF c] cong: map_cong)
  show "map (\<lambda>m. (depth_name m, depth_of (msgs_of df) m)) LEVELS =
      map (\<lambda>m. (depth_name m, map2 fl_add bs as)) LEVELS"
    unfolding e by (simp add: uniform_book(8) [OF c] cong: map_cong)
  show "has_ofi_cols (msgs_of df)" unfolding e by (rule has_ofi_cols_fold)
  show "has_size_cols (msgs_of df)"
    unfolding e using h by (intro has_size_cols_book) (simp add: has_book_cols_fold)
  show "ts_event (msgs_of df) = ts_event df" unfolding e by simp
qed

lemma notna_replicate: "notna (replicate n x) = (if x = NaN then [] else replicate n x)"
  by (induction n) (simp_all add: notna_def isna_def)

lemma foldl_fl_add_replicate:
  "foldl fl_add (Fin a) (replicate n (Fin x)) = Fin (a + real n * x)"
  by (induction n arbitrary: a) (simp_all add: algebra_simps)

lemma foldl_fl_add_replicate_inf:
  "foldl fl_add PInf (replicate n PInf) = PInf" "foldl fl_add NInf (replicate n NInf) = NInf"
  by (induction n) simp_all

lemma mean_skipna_replicate: "0 < n \<Longrightarrow> mean_skipna (replicate n x) = x"
proof (cases x)
  case NaN
  then show ?thesis by (simp add: mean_skipna_def notna_replicate)
next
  case (Fin a)
  assume "0 < n"
  then show ?thesis
    by (simp add: mean_skipna_def notna_replicate Fin fl_sum_def foldl_fl_add_replicate)
next
  case PInf
  assume "0 < n"
  then obtain k where n: "n = Suc k" by (cases n) auto
  have "fl_sum (replicate n PInf) = PInf"
    by (simp add: n fl_sum_def foldl_fl_add_replicate_inf)
  then show ?thesis
    using \<open>0 < n\<close> by (simp add: mean_skipna_def notna_replicate PInf)
next
  case NInf
  assume "0 < n"
  then obtain k where n: "n = Suc k" by (cases n) auto
  have "fl_sum (replicate n NInf) = NInf"
    by (simp add: n fl_sum_def foldl_fl_add_replicate_inf)
  then show ?thesis
    using \<open>0 < n\<close> by (simp add: mean_skipna_def notna_replicate NInf)
qed

lemma bins_ex: "bin_labels 10 [0, 5, 12] = [0, 10]" "bin_labels 10 [0, 10] = [0, 10]"
  by (simp_all add: bin_labels_def floor_label_def DAY_def upt_rec)

lemma ex_book_ts: "ts_event ex_book = [0, 5, 12]"
  by (simp add: ex_book_def)

lemma ex_msgs_bar:
  "snd (aggregate_ofi ex_msgs 10 False) =
     Inr \<lparr>tcols = ofi_cols, trows = [(0, replicate 10 (Fin (- 3))), (10, replicate 10 (Fin (- 9)))]\<rparr>"
proof -
  note u = uniform_msgs [OF ex_book_cols]
  have w: "(0::int) < 10" by simp
  show ?thesis
    unfolding ex_msgs_def aggregate_ofi_False_eq [OF u(3) w] u(1) u(5) resample_uniform ex_flows ex_book_ts
    by (simp add: dropna_def bins_ex bucket_vals_def in_bucket_def sum_min_count1_def notna_def
        isna_def fl_sum_def list_ex_replicate LEVELS_props(3) ofi_cols_def)
qed

lemma ex_msgs_normalised:
  "snd (aggregate_ofi ex_msgs 10 True) =
     Inr \<lparr>tcols = ofi_cols,
          trows = [(0, replicate 10 (Fin (- 12 / 23))), (10, replicate 10 (Fin (- 18 / 13)))]\<rparr>"
proof -
  note u = uniform_msgs [OF ex_book_cols]
  have w: "(0::int) < 10" by simp
  show ?thesis
    unfolding ex_msgs_def aggregate_ofi_True_eq [OF u(3) u(4) w] u(1) u(2) u(5) resample_uniform
      ex_flows ex_book_ts
    by (simp add: dropna_def bins_ex bucket_vals_def in_bucket_def sum_min_count1_def notna_def
        isna_def fl_sum_def list_ex_replicate LEVELS_props(3) ofi_cols_def
        foldl_fl_add_replicate mean_skipna_def depth_bar_of_def div_axis0_def labels_def)
qed

subsection \<open>The bar stage: sums, divisor and alignment\<close>

lemma bucket_rows_nonempty:
  assumes wf: "wf_frame df" and t: "t \<in> set (ts_event df)" and b: "in_bucket w b t"
  shows "filter (\<lambda>i. in_bucket w b (ts_event df ! i)) [0..<length (index df)] \<noteq> []"
proof -
  from t obtain i where i: "i < length (ts_event df)" "ts_event df ! i = t"
    by (auto simp: in_set_conv_nth)
  with wf have "i < length (index df)" by (simp add: wf_frame_def)
  with i b have "i \<in> set (filter (\<lambda>i. in_bucket w b (ts_event df ! i)) [0..<length (index df)])"
    by simp
  then show ?thesis by (metis empty_iff empty_set)
qed

lemma bucket_rows_message:
  assumes wf: "wf_frame df"
    and ne: "filter (\<lambda>i. in_bucket w b (ts_event df ! i)) [0..<length (index df)] \<noteq> []"
  shows "\<exists>t \<in> set (ts_event df). in_bucket w b t"
proof -
  from ne obtain i where "i \<in> set (filter (\<lambda>i. in_bucket w b (ts_event df ! i)) [0..<length (index df)])"
    by (meson last_in_set)
  then have i: "i < length (index df)" "in_bucket w b (ts_event df ! i)" by simp_all
  with wf have "ts_event df ! i \<in> set (ts_event df)" by (simp add: wf_frame_def)
  with i(2) show ?thesis by blast
qed

lemma has_bar_message:
  assumes wf: "wf_frame df" and hb: "has_bar df w b"
  shows "\<exists>t \<in> set (ts_event df). in_bucket w b t"
proof -
  have "sum_min_count1 (bucket_cells df w (ofi_name 0) b) \<noteq> NaN"
    using hb zero_level by (force simp: has_bar_def spec_bar_row_def list_ex_iff isna_def)
  then have "bucket_cells df w (ofi_name 0) b \<noteq> []"
    by (auto simp: sum_min_count1_eq notna_def)
  then have "filter (\<lambda>i. in_bucket w b (ts_event df ! i)) [0..<length (index df)] \<noteq> []"
    by (simp add: bucket_cells_def)
  with wf show ?thesis by (rule bucket_rows_message)
qed

lemma has_depth_message:
  assumes wf: "wf_frame df" and hd: "has_depth df w b"
  shows "\<exists>t \<in> set (ts_event df). in_bucket w b t"
proof -
  have "mean_skipna (depth_cells df w 0 b) \<noteq> NaN"
    using hd zero_level by (force simp: has_depth_def spec_depth_row_def list_ex_iff isna_def)
  then have "depth_cells df w 0 b \<noteq> []"
    by (auto simp: mean_skipna_def notna_def)
  then have "filter (\<lambda>i. in_bucket w b (ts_event df ! i)) [0..<length (index df)] \<noteq> []"
    by (simp add: depth_cells_def)
  with wf show ?thesis by (rule bucket_rows_message)
qed

lemma has_bar_finite:
  assumes wf: "wf_frame df" and h: "has_ofi_cols df" and f: "finite_ofi df"
    and g: "b \<in> set (bin_labels w (ts_event df))"
    and t: "t \<in> set (ts_event df)" "in_bucket w b t"
  shows "has_bar df w b"
proof -
  have "sum_min_count1 (bucket_cells df w (ofi_name m) b) \<noteq> NaN" if m: "m \<in> set LEVELS" for m
  proof -
    from f m have "list_all is_fin (col df (ofi_name m))"
      by (simp add: finite_ofi_def list_all_iff)
    with wf has_ofi_col [OF h m] have "list_all is_fin (bucket_cells df w (ofi_name m) b)"
      by (rule bucket_cells_finite)
    moreover have "bucket_cells df w (ofi_name m) b \<noteq> []"
      using wf t by (rule in_bucket_cells_nonempty)
    ultimately show ?thesis
      by (simp add: sum_min_count1_eq notna_finite fl_sum_finite)
  qed
  then have "\<not> list_ex isna (spec_bar_row df w b)"
    by (fastforce simp: spec_bar_row_def list_ex_iff isna_def)
  with g show ?thesis by (simp add: has_bar_def)
qed

lemma mean_skipna_finite:
  assumes "list_all is_fin xs" and "xs \<noteq> []"
  shows "mean_skipna xs = Fin (sum_list (map fl_val xs) / real (length xs))"
  using assms by (simp add: mean_skipna_def notna_finite fl_sum_finite)

lemma depth_cells_finite:
  assumes wf: "wf_frame df" and hs: "has_size_cols df" and f: "finite_sizes df"
    and m: "m \<in> set LEVELS"
  shows "list_all is_fin (depth_cells df w m b)"
proof -
  from f m have fb: "list_all is_fin (col df (sz_name Bid m))"
    and fa: "list_all is_fin (col df (sz_name Ask m))"
    by (simp_all add: finite_sizes_def list_all_iff)
  from has_size_col [OF hs m] wf have lb: "length (col df (sz_name Bid m)) = length (index df)"
    and la: "length (col df (sz_name Ask m)) = length (index df)"
    by (simp_all add: wf_col_length)
  have "is_fin (fl_add (col df (sz_name Bid m) ! i) (col df (sz_name Ask m) ! i))"
    if "i < length (index df)" for i
  proof -
    from that lb fb have "is_fin (col df (sz_name Bid m) ! i)" by (simp add: list_all_length)
    moreover from that la fa have "is_fin (col df (sz_name Ask m) ! i)" by (simp add: list_all_length)
    ultimately show ?thesis
      by (cases "col df (sz_name Bid m) ! i"; cases "col df (sz_name Ask m) ! i") simp_all
  qed
  then show ?thesis by (simp add: depth_cells_def list_all_iff)
qed

lemma spec_divisor_finite:
  assumes wf: "wf_frame df" and hs: "has_size_cols df" and f: "finite_sizes df"
    and t: "t \<in> set (ts_event df)" "in_bucket w b t"
  shows "spec_depth_row df w b = map (\<lambda>m. Fin (depth_mean_real df w m b)) LEVELS"
    and "spec_divisor df w b = Fin (divisor_real df w b)"
proof -
  have ne: "depth_cells df w m b \<noteq> []" for m
    using bucket_rows_nonempty [OF wf t] by (simp add: depth_cells_def)
  have "mean_skipna (depth_cells df w m b) = Fin (depth_mean_real df w m b)"
    if "m \<in> set LEVELS" for m
    unfolding depth_mean_real_def
    using depth_cells_finite [OF wf hs f that] ne by (rule mean_skipna_finite)
  then show row: "spec_depth_row df w b = map (\<lambda>m. Fin (depth_mean_real df w m b)) LEVELS"
    by (simp add: spec_depth_row_def)
  have "mean_skipna (map (\<lambda>m. Fin (depth_mean_real df w m b)) LEVELS) =
      Fin (sum_list (map fl_val (map (\<lambda>m. Fin (depth_mean_real df w m b)) LEVELS)) /
        real (length (map (\<lambda>m. Fin (depth_mean_real df w m b)) LEVELS)))"
    by (rule mean_skipna_finite) (simp_all add: list_all_iff LEVELS_def)
  then show "spec_divisor df w b = Fin (divisor_real df w b)"
    by (simp add: spec_divisor_def row divisor_real_def comp_def LEVELS_props(3))
qed

lemma has_depth_finite:
  assumes wf: "wf_frame df" and hs: "has_size_cols df" and f: "finite_sizes df"
    and g: "b \<in> set (bin_labels w (ts_event df))"
    and t: "t \<in> set (ts_event df)" "in_bucket w b t"
  shows "has_depth df w b"
  using g by (auto simp: has_depth_def spec_divisor_finite(1) [OF wf hs f t] list_ex_iff isna_def)

lemma ofi_bar_labels:
  assumes wf: "wf_frame df" and h: "has_ofi_cols df" and w: "0 < w"
  shows "\<exists>bar. ofi_bar df w = Inr bar \<and> set (labels bar) = {b. has_bar df w b}"
proof -
  define bar where "bar = dropna (resample_agg sum_min_count1 w (ts_event df)
      (map (\<lambda>n. (n, col df n)) ofi_cols))"
  have "ofi_bar df w = Inr bar" unfolding bar_def using h w by (rule ofi_bar_ok)
  moreover have "set (labels bar) = {b. has_bar df w b}"
    unfolding labels_def bar_def using bar_rows_iff [OF wf h] by (rule set_labels_rows)
  ultimately show ?thesis by blast
qed

lemma depth_table_labels:
  assumes wf: "wf_frame df" and hs: "has_size_cols df"
  shows "\<exists>depth. depth_table (fold depth_out LEVELS df) w = Inr depth \<and>
      set (labels depth) = {b. has_depth df w b}"
proof -
  define depth where "depth = dropna (resample_agg mean_skipna w (ts_event df)
      (map (\<lambda>m. (depth_name m, depth_of df m)) LEVELS))"
  have "depth_table (fold depth_out LEVELS df) w = Inr depth"
    unfolding depth_def by (rule depth_table_fold)
  moreover have "set (labels depth) = {b. has_depth df w b}"
    unfolding labels_def depth_def using depth_rows_iff [OF wf hs] by (rule set_labels_rows)
  ultimately show ?thesis by blast
qed

lemma fst_aggregate_normalised:
  assumes "wf_frame df" "has_ofi_cols df" "has_size_cols df" "0 < w"
  shows "fst (aggregate_ofi df w True) = fold depth_out LEVELS df"
  using aggregate_ofi_normalised [OF assms] by auto

lemma distinct_book_colnames: "distinct (concat (map book_names LEVELS))"
  by code_simp

lemma uniform_wf:
  assumes c: "cols df = concat (map (level_book bp bs ap as) LEVELS) @ []"
    and l: "length bp = length (index df)" "length bs = length (index df)"
      "length ap = length (index df)" "length as = length (index df)"
      "length (ts_event df) = length (index df)" "length (symbol df) = length (index df)"
  shows "wf_frame df" "wf_frame (msgs_of df)"
proof -
  have "list_all (\<lambda>nc. length (snd nc) = length (index df)) (cols df)"
    unfolding c using l by (auto simp: list_all_iff level_book_def)
  moreover have "distinct (colnames df)"
    using distinct_book_colnames by (simp add: colnames_def c map_fst_concat_book)
  ultimately show wf: "wf_frame df" using l by (simp add: wf_frame_def)
  have h: "has_book_cols df" using c by (rule uniform_book_has)
  show "wf_frame (msgs_of df)"
    unfolding msgs_of_eq [OF h] using wf h [unfolded has_book_cols_def]
    by (rule wf_fold_level_out)
qed

lemma uniform_msgs_cols:
  assumes c: "cols df = concat (map (level_book bp bs ap as) LEVELS) @ extra"
    and m: "m \<in> set LEVELS"
  shows "col (msgs_of df) (ofi_name m) =
      map2 fl_sub (flow_series Bid bp bs) (flow_series Ask ap as)"
    "col (msgs_of df) (sz_name Bid m) = bs" "col (msgs_of df) (sz_name Ask m) = as"
proof -
  have h: "has_book_cols df" using c by (rule uniform_book_has)
  show "col (msgs_of df) (ofi_name m) =
      map2 fl_sub (flow_series Bid bp bs) (flow_series Ask ap as)"
    unfolding msgs_of_eq [OF h] by (simp add: col_fold_ofi [OF m] uniform_book(7) [OF c m])
  show "col (msgs_of df) (sz_name Bid m) = bs" "col (msgs_of df) (sz_name Ask m) = as"
    unfolding msgs_of_eq [OF h] by (simp_all add: col_fold_sz uniform_book [OF c m])
qed

lemma ex_zero_cols: "cols ex_zero = concat (map (level_book [Fin 100, Fin 100] [Fin 5, Fin 0]
    [Fin 101, Fin 101] [Fin 0, Fin 0]) LEVELS) @ []"
  by (simp add: ex_zero_def)

lemma ex_gap_cols: "cols ex_gap = concat (map (level_book [Fin 100, Fin 100] [NaN, Fin 1]
    [Fin 101, Fin 101] [Fin 1, Fin 1]) LEVELS) @ []"
  by (simp add: ex_gap_def)

lemma ex_wf: "wf_frame ex_msgs" "wf_frame ex_zero_msgs" "wf_frame ex_gap_msgs"
  unfolding ex_msgs_def ex_zero_msgs_def ex_gap_msgs_def
  by (rule uniform_wf(2) [OF ex_book_cols], simp_all add: ex_book_def,
      rule uniform_wf(2) [OF ex_zero_cols], simp_all add: ex_zero_def,
      rule uniform_wf(2) [OF ex_gap_cols], simp_all add: ex_gap_def)

lemma ex_has:
  "has_ofi_cols ex_msgs" "has_size_cols ex_msgs"
  "has_ofi_cols ex_zero_msgs" "has_size_cols ex_zero_msgs"
  "has_ofi_cols ex_gap_msgs" "has_size_cols ex_gap_msgs"
  unfolding ex_msgs_def ex_zero_msgs_def ex_gap_msgs_def
  by (rule uniform_msgs(3,4) [OF ex_book_cols] uniform_msgs(3,4) [OF ex_zero_cols]
      uniform_msgs(3,4) [OF ex_gap_cols])+

lemma ex_finite: "finite_ofi ex_msgs" "finite_sizes ex_msgs"
  unfolding ex_msgs_def
  by (simp_all add: finite_ofi_def finite_sizes_def list_all_iff
      uniform_msgs_cols [OF ex_book_cols] ex_flows)

lemma w10: "(0::int) < 10"
  by simp

lemma ex_zero_flows:
  "flow_series Bid [Fin 100, Fin 100] [Fin 5, Fin 0] = [Fin (- 5), Fin (- 5)]"
  "flow_series Ask [Fin 101, Fin 101] [Fin 0, Fin 0] = [Fin 0, Fin 0]"
  by (simp_all add: flow_series_def)

lemma ex_gap_flows:
  "flow_series Bid [Fin 100, Fin 100] [NaN, Fin 1] = [NaN, NaN]"
  "flow_series Ask [Fin 101, Fin 101] [Fin 1, Fin 1] = [Fin 1, Fin 0]"
  by (simp_all add: flow_series_def fl_sub_def)

lemma ex_ts: "ts_event ex_zero = [0, 10]" "ts_event ex_gap = [0, 10]"
  by (simp_all add: ex_zero_def ex_gap_def)

lemmas eval_simps = dropna_def bins_ex bucket_vals_def in_bucket_def sum_min_count1_def notna_def
  isna_def fl_sum_def list_ex_replicate LEVELS_props(3) ofi_cols_def depth_cols_def
  foldl_fl_add_replicate mean_skipna_def depth_bar_of_def div_axis0_def labels_def

lemma flow_first_row:
  assumes "p \<noteq> []" and "q \<noteq> []"
  shows "flow_series Bid p q ! 0 = fl_neg (q ! 0)" "flow_series Ask p q ! 0 = q ! 0"
  using assms by (cases p; cases q; simp add: flow_series_def)+

lemma fold_level_other:
  "n \<notin> set (concat (map derived_names ms)) \<Longrightarrow>
     map_of (cols (fold level_out ms df)) n = map_of (cols df) n"
  by (induction ms arbitrary: df) (auto simp: map_of_level_out derived_names_def)

lemma depth_not_book: "depth_name m \<notin> set (concat (map book_names ms))"
proof -
  have "depth_name m \<notin> set (book_names m')" for m'
    using book_not_derived(5) [of Bid m' m] book_not_derived(5) [of Ask m' m]
      book_not_derived(6) [of Bid m' m] book_not_derived(6) [of Ask m' m]
    by (auto simp: book_names_def)
  then show ?thesis by auto
qed

lemma depth_not_derived: "depth_name m \<notin> set (concat (map derived_names ms))"
proof -
  have "depth_name m \<notin> set (derived_names m')" for m'
    using derived_distinct(3) [of Bid m' m] derived_distinct(3) [of Ask m' m]
      derived_distinct(4) [of m' m]
    by (auto simp: derived_names_def)
  then show ?thesis by auto
qed

subsection \<open>The grid of buckets and the rows of the two tables\<close>











lemma aggregate_ofi_tables:
  assumes wf: "wf_frame df" and h: "has_ofi_cols df" and hs: "has_size_cols df" and w: "0 < w"
  shows "\<exists>bar depth. ofi_bar df w = Inr bar \<and>
      depth_table (fold depth_out LEVELS df) w = Inr depth \<and>
      set (labels bar) = {b. has_bar df w b} \<and> set (labels depth) = {b. has_depth df w b} \<and>
      (\<forall>b. map_of (trows bar) b =
          (if has_bar df w b then Some (spec_bar_row df w b) else None)) \<and>
      (\<forall>b. map_of (depth_bar_of depth) b =
          (if has_depth df w b then Some (spec_divisor df w b) else None))"
proof -
  define bar where "bar = dropna (resample_agg sum_min_count1 w (ts_event df)
      (map (\<lambda>n. (n, col df n)) ofi_cols))"
  define depth where "depth = dropna (resample_agg mean_skipna w (ts_event df)
      (map (\<lambda>m. (depth_name m, depth_of df m)) LEVELS))"
  have ob: "ofi_bar df w = Inr bar" unfolding bar_def using h w by (rule ofi_bar_ok)
  have dt: "depth_table (fold depth_out LEVELS df) w = Inr depth"
    unfolding depth_def by (rule depth_table_fold)
  have bsd: "distinct (labels bar)"
    unfolding bar_def by (rule labels_dropna_resample [OF w])
  have dsd: "distinct (labels depth)"
    unfolding depth_def by (rule labels_dropna_resample [OF w])
  have bi: "r \<in> set (trows bar) \<longleftrightarrow> has_bar df w (fst r) \<and> snd r = spec_bar_row df w (fst r)" for r
    unfolding bar_def by (rule bar_rows_iff [OF wf h])
  have di: "r \<in> set (trows depth) \<longleftrightarrow> has_depth df w (fst r) \<and> snd r = spec_depth_row df w (fst r)" for r
    unfolding depth_def by (rule depth_rows_iff [OF wf hs])
  have mb: "map_of (trows bar) b = (if has_bar df w b then Some (spec_bar_row df w b) else None)" for b
    using bsd bi unfolding labels_def by (rule map_of_rows)
  have md': "map_of (trows depth) b = (if has_depth df w b then Some (spec_depth_row df w b) else None)" for b
    using dsd di unfolding labels_def by (rule map_of_rows)
  have md: "map_of (depth_bar_of depth) b =
      (if has_depth df w b then Some (spec_divisor df w b) else None)" for b
    by (simp add: map_of_depth_bar md' spec_divisor_def)
  have lb: "set (labels bar) = {b. has_bar df w b}"
    unfolding labels_def using bi by (rule set_labels_rows)
  have ld: "set (labels depth) = {b. has_depth df w b}"
    unfolding labels_def using di by (rule set_labels_rows)
  from ob dt lb ld mb md show ?thesis by blast
qed

subsection \<open>The multi-asset loop and the integrated series\<close>

lemma mask_filter_none: "mask_filter (map (\<lambda>s. s = sy) syms) xs = []" if "sy \<notin> set syms"
proof -
  have "\<not> fst p" if "p \<in> set (zip (map (\<lambda>s. s = sy) syms) xs)" for p
  proof -
    from that have "fst p \<in> set (map (\<lambda>s. s = sy) syms)"
      by (metis set_zip_leftD prod.collapse)
    with \<open>sy \<notin> set syms\<close> show ?thesis by auto
  qed
  then show ?thesis by (simp add: mask_filter_def filter_empty_conv)
qed

lemma select_symbol_empty: "sy \<notin> set (symbol raw) \<Longrightarrow> frame_empty (select_symbol raw sy)"
  by (simp add: frame_empty_def select_symbol_def Let_def mask_filter_none)

lemma mask_filter_some:
  assumes "sy \<in> set syms" and "length xs = length syms"
  shows "mask_filter (map (\<lambda>s. s = sy) syms) xs \<noteq> []"
proof -
  from assms(1) obtain i where i: "i < length syms" "syms ! i = sy"
    by (auto simp: in_set_conv_nth)
  with assms(2) have "(True, xs ! i) \<in> set (zip (map (\<lambda>s. s = sy) syms) xs)"
    by (auto simp: set_zip intro!: exI [where x = i])
  then have "filter fst (zip (map (\<lambda>s. s = sy) syms) xs) \<noteq> []"
    by (force simp: filter_empty_conv)
  then show ?thesis by (simp add: mask_filter_def)
qed

lemma select_symbol_nonempty:
  "wf_frame raw \<Longrightarrow> sy \<in> set (symbol raw) \<Longrightarrow> \<not> frame_empty (select_symbol raw sy)"
  by (simp add: frame_empty_def select_symbol_def Let_def mask_filter_some wf_frame_def)

lemma colnames_select_symbol [simp]: "colnames (select_symbol raw sy) = colnames raw"
  by (simp add: colnames_def select_symbol_def Let_def comp_def)

lemma has_book_cols_select:
  "has_book_cols raw \<Longrightarrow> has_book_cols (select_symbol raw sy)"
  by (simp add: has_book_cols_def has_levels_iff)

lemma symbol_bars_ok:
  assumes h: "has_book_cols df" and w: "0 < w"
  shows "add_level_ofi df = Inr (fold level_out LEVELS df)"
    and "\<exists>bar. snd (aggregate_ofi (fold level_out LEVELS df) w normalise) = Inr bar"
proof -
  show "add_level_ofi df = Inr (fold level_out LEVELS df)" using h by (rule add_level_ofi_eq)
  have o: "has_ofi_cols (fold level_out LEVELS df)" by (rule has_ofi_cols_fold)
  have s: "has_size_cols (fold level_out LEVELS df)"
    using h by (intro has_size_cols_book) (simp add: has_book_cols_fold)
  show "\<exists>bar. snd (aggregate_ofi (fold level_out LEVELS df) w normalise) = Inr bar"
    by (cases normalise)
      (simp_all add: aggregate_ofi_True_eq [OF o s w] aggregate_ofi_False_eq [OF o w])
qed

lemma symbol_loop_stops:
  "sy \<in> set syms \<Longrightarrow> sy \<notin> set (symbol raw) \<Longrightarrow>
     \<exists>e. symbol_loop raw w normalise syms frames = Inl e"
proof (induction syms arbitrary: frames)
  case Nil
  then show ?case by simp
next
  case (Cons s syms)
  show ?case
  proof (cases "s = sy")
    case True
    with Cons.prems(2) have "frame_empty (select_symbol raw s)"
      by (simp add: select_symbol_empty)
    then show ?thesis by simp
  next
    case False
    with Cons.prems have "sy \<in> set syms" by simp
    then have "\<exists>e. symbol_loop raw w normalise syms fr = Inl e" for fr
      using Cons.prems(2) by (rule Cons.IH)
    then show ?thesis
      by (auto simp: Let_def split: sum.splits)
  qed
qed

lemma symbol_loop_first_missing:
  assumes wf: "wf_frame raw" and h: "has_book_cols raw" and w: "0 < w"
  shows "find (\<lambda>s. s \<notin> set (symbol raw)) syms = Some s' \<Longrightarrow>
     symbol_loop raw w normalise syms frames = Inl (SymbolNotFound s')"
proof (induction syms arbitrary: frames)
  case Nil
  then show ?case by simp
next
  case (Cons s syms)
  show ?case
  proof (cases "s \<in> set (symbol raw)")
    case False
    with Cons.prems have "s' = s" by simp
    moreover from False have "frame_empty (select_symbol raw s)" by (rule select_symbol_empty)
    ultimately show ?thesis by simp
  next
    case True
    with Cons.prems have "find (\<lambda>s. s \<notin> set (symbol raw)) syms = Some s'" by simp
    then have IH: "symbol_loop raw w normalise syms fr = Inl (SymbolNotFound s')" for fr
      by (rule Cons.IH)
    have ne: "\<not> frame_empty (select_symbol raw s)"
      using wf True by (rule select_symbol_nonempty)
    have hb: "has_book_cols (select_symbol raw s)" using h by (rule has_book_cols_select)
    have a: "add_level_ofi (select_symbol raw s) = Inr (fold level_out LEVELS (select_symbol raw s))"
      using hb w by (rule symbol_bars_ok(1))
    from symbol_bars_ok(2) [OF hb w, of normalise] obtain bar where
      b: "snd (aggregate_ofi (fold level_out LEVELS (select_symbol raw s)) w normalise) = Inr bar"
      by blast
    show ?thesis by (simp add: Let_def ne a b IH)
  qed
qed

lemma ex_book_wf: "wf_frame ex_book"
  by (rule uniform_wf(1) [OF ex_book_cols]) (simp_all add: ex_book_def)

lemma fin_map: "list_all is_fin xs \<Longrightarrow> xs = map Fin (map fl_val xs)"
proof (induction xs)
  case Nil
  show ?case by simp
next
  case (Cons x xs)
  then obtain a where "x = Fin a" by (cases x) auto
  with Cons show ?case by simp
qed

lemma fl_sum_map_Fin: "fl_sum (map Fin rs) = Fin (sum_list rs)"
proof -
  have "list_all is_fin (map Fin rs)" by (simp add: list_all_iff)
  then have "fl_sum (map Fin rs) = Fin (sum_list (map fl_val (map Fin rs)))"
    by (rule fl_sum_finite)
  then show ?thesis by (simp add: comp_def)
qed

lemma l1_norm_Fin: "l1_norm (map Fin rs) = Fin (sum_list (map abs rs))"
proof -
  have "map fl_abs (map Fin rs) = map Fin (map abs rs)" by simp
  then show ?thesis by (simp only: l1_norm_def fl_sum_map_Fin)
qed

lemma sum_list_abs_pos:
  fixes rs :: "real list"
  assumes "\<exists>r \<in> set rs. r \<noteq> 0"
  shows "0 < sum_list (map abs rs)"
  using assms
proof (induction rs)
  case Nil
  then show ?case by simp
next
  case (Cons r rs)
  have nn: "0 \<le> sum_list (map abs rs)" by (induction rs) simp_all
  show ?case
  proof (cases "r = 0")
    case True
    with Cons.prems have "\<exists>r \<in> set rs. r \<noteq> 0" by simp
    then have "0 < sum_list (map abs rs)" by (rule Cons.IH)
    with True show ?thesis by simp
  next
    case False
    then have "0 < \<bar>r\<bar>" by simp
    with nn show ?thesis by simp
  qed
qed

lemma sum_list_abs_divide:
  fixes rs :: "real list"
  shows "sum_list (map (\<lambda>r. \<bar>r\<bar> / c) rs) = sum_list (map abs rs) / c"
  by (induction rs) (simp_all add: add_divide_distrib)

lemma l1_normalise_Fin:
  assumes "sum_list (map abs rs) \<noteq> 0"
  shows "l1_normalise (map Fin rs) = map Fin (map (\<lambda>r. r / sum_list (map abs rs)) rs)"
  using assms by (simp add: l1_normalise_def l1_norm_Fin)

lemma l1_unit:
  assumes fin: "list_all is_fin w0" and nz: "list_ex (\<lambda>x. \<not> eq0 x) w0"
  shows "l1_norm (l1_normalise w0) = Fin 1"
    and "l1_normalise w0 = map (\<lambda>x. Fin (fl_val x / sum_list (map (\<lambda>y. \<bar>fl_val y\<bar>) w0))) w0"
proof -
  define rs where "rs = map fl_val w0"
  define s where "s = sum_list (map abs rs)"
  have w0: "w0 = map Fin rs" unfolding rs_def using fin by (rule fin_map)
  from nz obtain x where x: "x \<in> set w0" "\<not> eq0 x" by (auto simp: list_ex_iff)
  with fin obtain a where "x = Fin a" "a \<noteq> 0" by (cases x) (auto simp: list_all_iff)
  with x(1) have "\<exists>r \<in> set rs. r \<noteq> 0" by (force simp: rs_def)
  then have pos: "0 < s" unfolding s_def by (rule sum_list_abs_pos)
  then have n: "l1_normalise (map Fin rs) = map Fin (map (\<lambda>r. r / s) rs)"
    unfolding s_def by (intro l1_normalise_Fin) simp
  have "l1_norm (map Fin (map (\<lambda>r. r / s) rs)) = Fin (sum_list (map abs (map (\<lambda>r. r / s) rs)))"
    by (rule l1_norm_Fin)
  also have "sum_list (map abs (map (\<lambda>r. r / s) rs)) = sum_list (map abs rs) / \<bar>s\<bar>"
    by (simp add: comp_def abs_divide sum_list_abs_divide)
  also have "\<dots> = 1" using pos by (simp add: s_def)
  finally show "l1_norm (l1_normalise w0) = Fin 1" by (simp add: w0 n)
  have "sum_list (map (\<lambda>y. \<bar>fl_val y\<bar>) w0) = s" by (simp add: s_def rs_def comp_def)
  then show "l1_normalise w0 = map (\<lambda>x. Fin (fl_val x / sum_list (map (\<lambda>y. \<bar>fl_val y\<bar>) w0))) w0"
    using n by (simp add: w0 comp_def)
qed

lemma length_l1_normalise [simp]: "length (l1_normalise w) = length w"
  by (simp add: l1_normalise_def)

lemma dot_Fin: "dot (map Fin vs) (map Fin ws) = Fin (sum_list (map2 (*) vs ws))"
proof -
  have "map2 fl_mul (map Fin vs) (map Fin ws) = map Fin (map2 (*) vs ws)"
    by (induction vs ws rule: list_induct2') simp_all
  then show ?thesis by (simp only: dot_def fl_sum_map_Fin)
qed

subsection \<open>The divisor of the example's first bucket\<close>

lemma ex_msgs_index: "index ex_msgs = [0, 1, 2]" "ts_event ex_msgs = [0, 5, 12]"
proof -
  have e: "ex_msgs = fold level_out LEVELS ex_book"
    unfolding ex_msgs_def using ex_book_has by (rule msgs_of_eq)
  show "index ex_msgs = [0, 1, 2]" "ts_event ex_msgs = [0, 5, 12]"
    unfolding e by (simp_all add: ex_book_def)
qed

lemma ex_msgs_depth_cells:
  "m \<in> set LEVELS \<Longrightarrow> depth_cells ex_msgs 10 m 0 = [Fin 13, Fin 10]"
  by (simp add: depth_cells_def ex_msgs_index in_bucket_def upt_rec
      uniform_msgs_cols(2,3) [OF ex_book_cols, folded ex_msgs_def])

lemma ex_msgs_divisor: "divisor_real ex_msgs 10 0 = 23 / 4"
proof -
  have "map (\<lambda>m. depth_mean_real ex_msgs 10 m 0) LEVELS = map (\<lambda>m. 23 / 2) LEVELS"
    by (rule map_cong) (simp_all add: depth_mean_real_def ex_msgs_depth_cells)
  then show ?thesis
    by (simp add: divisor_real_def map_replicate_const sum_list_replicate LEVELS_props(3))
qed

subsection \<open>The examples with a zero depth and with a missing size\<close>

lemma uniform_spec_rows:
  assumes c: "cols df = concat (map (level_book bp bs ap as) LEVELS) @ []"
    and l: "length bp = length (index df)" "length bs = length (index df)"
      "length ap = length (index df)" "length as = length (index df)"
      "length (ts_event df) = length (index df)" "length (symbol df) = length (index df)"
  shows "spec_bar_row (msgs_of df) w b =
      replicate 10 (sum_min_count1 (bucket_vals w (ts_event df)
        (map2 fl_sub (flow_series Bid bp bs) (flow_series Ask ap as)) b))"
    and "spec_depth_row (msgs_of df) w b =
      replicate 10 (mean_skipna (bucket_vals w (ts_event df) (map2 fl_add bs as) b))"
proof -
  note wf = uniform_wf(2) [OF c l]
  note u = uniform_msgs [OF c]
  have 1: "bucket_cells (msgs_of df) w (ofi_name m) b =
      bucket_vals w (ts_event df) (map2 fl_sub (flow_series Bid bp bs) (flow_series Ask ap as)) b"
    if m: "m \<in> set LEVELS" for m
    using bucket_vals_cells [OF wf has_ofi_col [OF u(3) m], of w b]
    by (simp add: u(5) uniform_msgs_cols(1) [OF c m])
  have 2: "depth_cells (msgs_of df) w m b = bucket_vals w (ts_event df) (map2 fl_add bs as) b"
    if m: "m \<in> set LEVELS" for m
    using depth_vals_cells [OF wf, of m w b] has_size_col [OF u(4) m]
    by (simp add: u(5) depth_of_def uniform_msgs_cols(2,3) [OF c m])
  show "spec_bar_row (msgs_of df) w b =
      replicate 10 (sum_min_count1 (bucket_vals w (ts_event df)
        (map2 fl_sub (flow_series Bid bp bs) (flow_series Ask ap as)) b))"
    by (simp add: spec_bar_row_def 1 map_replicate_const LEVELS_props(3) cong: map_cong)
  show "spec_depth_row (msgs_of df) w b =
      replicate 10 (mean_skipna (bucket_vals w (ts_event df) (map2 fl_add bs as) b))"
    by (simp add: spec_depth_row_def 2 map_replicate_const LEVELS_props(3) cong: map_cong)
qed

lemmas spec_eval = bucket_vals_def in_bucket_def sum_min_count1_def notna_def isna_def fl_sum_def
  mean_skipna_def list_ex_replicate foldl_fl_add_replicate bins_ex fl_sub_def

lemma ex_zero_spec:
  "spec_bar_row ex_zero_msgs 10 10 = replicate 10 (Fin (- 5))"
  "has_bar ex_zero_msgs 10 10" "has_depth ex_zero_msgs 10 10"
  "spec_divisor ex_zero_msgs 10 10 = Fin 0"
proof -
  have t: "ts_event ex_zero_msgs = [0, 10]"
    by (simp add: ex_zero_msgs_def uniform_msgs(5) [OF ex_zero_cols] ex_ts)
  have b: "spec_bar_row ex_zero_msgs 10 b = replicate 10 (sum_min_count1 (bucket_vals 10 [0, 10]
      (map2 fl_sub [Fin (- 5), Fin (- 5)] [Fin 0, Fin 0]) b))" for b
    unfolding ex_zero_msgs_def
    by (subst uniform_spec_rows(1) [OF ex_zero_cols]) (simp_all add: ex_zero_def ex_zero_flows)
  have d: "spec_depth_row ex_zero_msgs 10 b = replicate 10 (mean_skipna (bucket_vals 10 [0, 10]
      (map2 fl_add [Fin 5, Fin 0] [Fin 0, Fin 0]) b))" for b
    unfolding ex_zero_msgs_def
    by (subst uniform_spec_rows(2) [OF ex_zero_cols]) (simp_all add: ex_zero_def)
  show "spec_bar_row ex_zero_msgs 10 10 = replicate 10 (Fin (- 5))"
    by (simp add: b spec_eval)
  show "has_bar ex_zero_msgs 10 10" by (simp add: has_bar_def t b spec_eval)
  show "has_depth ex_zero_msgs 10 10" by (simp add: has_depth_def t d spec_eval)
  show "spec_divisor ex_zero_msgs 10 10 = Fin 0"
    by (simp add: spec_divisor_def d spec_eval)
qed

lemma ex_gap_spec: "\<not> has_bar ex_gap_msgs 10 10" "has_depth ex_gap_msgs 10 10"
proof -
  have t: "ts_event ex_gap_msgs = [0, 10]"
    by (simp add: ex_gap_msgs_def uniform_msgs(5) [OF ex_gap_cols] ex_ts)
  have b: "spec_bar_row ex_gap_msgs 10 b = replicate 10 (sum_min_count1 (bucket_vals 10 [0, 10]
      (map2 fl_sub [NaN, NaN] [Fin 1, Fin 0]) b))" for b
    unfolding ex_gap_msgs_def
    by (subst uniform_spec_rows(1) [OF ex_gap_cols]) (simp_all add: ex_gap_def ex_gap_flows)
  have d: "spec_depth_row ex_gap_msgs 10 b = replicate 10 (mean_skipna (bucket_vals 10 [0, 10]
      (map2 fl_add [NaN, Fin 1] [Fin 1, Fin 1]) b))" for b
    unfolding ex_gap_msgs_def
    by (subst uniform_spec_rows(2) [OF ex_gap_cols]) (simp_all add: ex_gap_def)
  show "\<not> has_bar ex_gap_msgs 10 10" by (simp add: has_bar_def t b spec_eval)
  show "has_depth ex_gap_msgs 10 10" by (simp add: has_depth_def t d spec_eval)
qed

lemma ex_zero_result:
  "snd (aggregate_ofi ex_zero_msgs 10 True) =
     Inr \<lparr>tcols = ofi_cols,
          trows = [(0, replicate 10 (Fin (- 2))), (10, replicate 10 NInf)]\<rparr>"
proof -
  note u = uniform_msgs [OF ex_zero_cols]
  show ?thesis
    unfolding ex_zero_msgs_def aggregate_ofi_True_eq [OF u(3) u(4) w10] u(1) u(2) u(5)
      resample_uniform ex_zero_flows ex_ts
    by (simp add: eval_simps)
qed

lemma ex_gap_result:
  "ofi_bar ex_gap_msgs 10 = Inr \<lparr>tcols = ofi_cols, trows = []\<rparr> \<and>
   depth_table (fst (aggregate_ofi ex_gap_msgs 10 True)) 10 =
     Inr \<lparr>tcols = depth_cols, trows = [(10, replicate 10 (Fin 2))]\<rparr> \<and>
   snd (aggregate_ofi ex_gap_msgs 10 True) =
     Inr \<lparr>tcols = ofi_cols, trows = [(10, replicate 10 NaN)]\<rparr>"
proof -
  note u = uniform_msgs [OF ex_gap_cols]
  have 1: "ofi_bar ex_gap_msgs 10 = Inr \<lparr>tcols = ofi_cols, trows = []\<rparr>"
    unfolding ex_gap_msgs_def ofi_bar_ok [OF u(3) w10] u(1) u(5) resample_uniform
      ex_gap_flows ex_ts
    by (simp add: eval_simps fl_sub_def)
  have f: "fst (aggregate_ofi ex_gap_msgs 10 True) = fold depth_out LEVELS ex_gap_msgs"
    using ex_wf(3) ex_has(5,6) w10 by (rule fst_aggregate_normalised)
  have 2: "depth_table (fst (aggregate_ofi ex_gap_msgs 10 True)) 10 =
      Inr \<lparr>tcols = depth_cols, trows = [(10, replicate 10 (Fin 2))]\<rparr>"
    unfolding f depth_table_fold
    unfolding ex_gap_msgs_def u(2) u(5) resample_uniform ex_ts
    by (simp add: eval_simps)
  have 3: "snd (aggregate_ofi ex_gap_msgs 10 True) =
      Inr \<lparr>tcols = ofi_cols, trows = [(10, replicate 10 NaN)]\<rparr>"
    unfolding ex_gap_msgs_def aggregate_ofi_True_eq [OF u(3) u(4) w10] u(1) u(2) u(5)
      resample_uniform ex_gap_flows ex_ts
    by (simp add: eval_simps fl_sub_def)
  from 1 2 3 show ?thesis by blast
qed

lemma ex_drop_cols: "cols ex_drop = concat (map (level_book [Fin 100, Fin 100] [NaN, Fin 0]
    [Fin 101, Fin 101] [Fin 0, Fin 0]) LEVELS) @ []"
  by (simp add: ex_drop_def)

lemma ex_drop_wf: "wf_frame ex_drop_msgs"
  unfolding ex_drop_msgs_def
  by (rule uniform_wf(2) [OF ex_drop_cols]) (simp_all add: ex_drop_def)

lemma ex_drop_has: "has_ofi_cols ex_drop_msgs" "has_size_cols ex_drop_msgs"
  unfolding ex_drop_msgs_def by (rule uniform_msgs(3,4) [OF ex_drop_cols])+

lemma ex_drop_flows:
  "flow_series Bid [Fin 100, Fin 100] [NaN, Fin 0] = [NaN, NaN]"
  "flow_series Ask [Fin 101, Fin 101] [Fin 0, Fin 0] = [Fin 0, Fin 0]"
  by (simp_all add: flow_series_def fl_sub_def)

lemma ex_drop_ts: "ts_event ex_drop = [0, 10]"
  by (simp add: ex_drop_def)

lemma ex_drop_spec:
  "\<not> has_bar ex_drop_msgs 10 10" "has_depth ex_drop_msgs 10 10"
  "spec_divisor ex_drop_msgs 10 10 = Fin 0"
proof -
  have t: "ts_event ex_drop_msgs = [0, 10]"
    by (simp add: ex_drop_msgs_def uniform_msgs(5) [OF ex_drop_cols] ex_drop_ts)
  have b: "spec_bar_row ex_drop_msgs 10 b = replicate 10 (sum_min_count1 (bucket_vals 10 [0, 10]
      (map2 fl_sub [NaN, NaN] [Fin 0, Fin 0]) b))" for b
    unfolding ex_drop_msgs_def
    by (subst uniform_spec_rows(1) [OF ex_drop_cols]) (simp_all add: ex_drop_def ex_drop_flows)
  have d: "spec_depth_row ex_drop_msgs 10 b = replicate 10 (mean_skipna (bucket_vals 10 [0, 10]
      (map2 fl_add [NaN, Fin 0] [Fin 0, Fin 0]) b))" for b
    unfolding ex_drop_msgs_def
    by (subst uniform_spec_rows(2) [OF ex_drop_cols]) (simp_all add: ex_drop_def)
  show "\<not> has_bar ex_drop_msgs 10 10" by (simp add: has_bar_def t b spec_eval)
  show "has_depth ex_drop_msgs 10 10" by (simp add: has_depth_def t d spec_eval)
  show "spec_divisor ex_drop_msgs 10 10 = Fin 0"
    by (simp add: spec_divisor_def d spec_eval)
qed

lemma ex_drop_result:
  "snd (aggregate_ofi ex_drop_msgs 10 True) =
     Inr \<lparr>tcols = ofi_cols, trows = [(10, replicate 10 NaN)]\<rparr>"
proof -
  note u = uniform_msgs [OF ex_drop_cols]
  show ?thesis
    unfolding ex_drop_msgs_def aggregate_ofi_True_eq [OF u(3) u(4) w10] u(1) u(2) u(5)
      resample_uniform ex_drop_flows ex_drop_ts
    by (simp add: eval_simps fl_sub_def)
qed

subsection \<open>A run of the multi-asset loop\<close>

lemma mask_filter_all:
  assumes "\<And>s. s \<in> set syms \<Longrightarrow> s = sy" and "length xs = length syms"
  shows "mask_filter (map (\<lambda>s. s = sy) syms) xs = xs"
proof -
  have "filter fst (zip (map (\<lambda>s. s = sy) syms) xs) = zip (map (\<lambda>s. s = sy) syms) xs"
    using assms(1) by (auto simp: filter_id_conv dest!: set_zip_leftD)
  then show ?thesis using assms(2) by (simp add: mask_filter_def)
qed

lemma select_symbol_all:
  assumes wf: "wf_frame raw" and all: "\<And>s. s \<in> set (symbol raw) \<Longrightarrow> s = sy"
  shows "select_symbol raw sy = raw"
proof -
  have l: "length (index raw) = length (symbol raw)" "length (ts_event raw) = length (symbol raw)"
    using wf by (simp_all add: wf_frame_def)
  have c: "map (\<lambda>nc. (fst nc, mask_filter (map (\<lambda>s. s = sy) (symbol raw)) (snd nc))) (cols raw) =
      cols raw"
  proof (rule map_idI)
    fix nc assume "nc \<in> set (cols raw)"
    with wf l have "length (snd nc) = length (symbol raw)"
      by (simp add: wf_frame_def list_all_iff)
    with all have "mask_filter (map (\<lambda>s. s = sy) (symbol raw)) (snd nc) = snd nc"
      by (rule mask_filter_all)
    then show "(fst nc, mask_filter (map (\<lambda>s. s = sy) (symbol raw)) (snd nc)) = nc" by simp
  qed
  show ?thesis
    by (simp add: select_symbol_def Let_def c mask_filter_all [OF all] l)
qed

text \<open>The loop and the join do return a table when every requested symbol has rows: the
  example book, one symbol, buckets of width 10, not normalised.\<close>

lemma multi_asset_ofi_example:
  "multi_asset_ofi ex_book [''A''] 10 False =
     Inr \<lparr>tcols = map (\<lambda>n. (''A'', n)) ofi_cols,
          trows = [(0, replicate 10 (Fin (- 3))), (10, replicate 10 (Fin (- 9)))]\<rparr>"
proof -
  have s: "select_symbol ex_book ''A'' = ex_book"
    using ex_book_wf by (rule select_symbol_all) (simp add: ex_book_def)
  have ne: "\<not> frame_empty ex_book" by (simp add: frame_empty_def ex_book_def)
  have a: "add_level_ofi ex_book = Inr ex_msgs"
    by (simp add: add_level_ofi_eq [OF ex_book_has] ex_msgs_def msgs_of_eq [OF ex_book_has])
  show ?thesis
    by (simp add: multi_asset_ofi_def Let_def s ne a ex_msgs_bar concat_inner_def labels_def)
qed

subsection \<open>The stand-in fit, and what the call does when there is no component\<close>

lemma ex_pca_bar:
  "ex_pca (map snd (trows ex_bar)) 0 = Inr []"
  "ex_pca (map snd (trows ex_bar)) 1 = Inr ([Fin (3 / 5), Fin (4 / 5)] # [])"
  "ex_pca (map snd (trows ex_bar)) 3 = Inl FitError"
  by (simp_all add: ex_pca_def ex_bar_def)

lemma integrated_ofi_raises:
  "pca_fit (map snd (trows bar)) n = Inl e \<Longrightarrow> integrated_ofi pca_fit bar n = Inl e"
  "pca_fit (map snd (trows bar)) n = Inr [] \<Longrightarrow> integrated_ofi pca_fit bar n = Inl IndexError"
  by (simp_all add: integrated_ofi_def)

section \<open>The claims\<close>

subsection \<open>The three-branch rule\<close>

text \<open>
  C1. In a well-formed frame that has the price and size columns \<open>p\<close> and \<open>q\<close> of a side
  and level, \<open>_side_flow\<close> returns a series of the frame's length, and at every row \<open>i\<close>
  that has a row before it, with \<open>dp = p[i] - p[i-1]\<close> and \<open>dq = q[i] - q[i-1]\<close>: on the
  bid side the flow is \<open>q[i]\<close> when \<open>dp > 0\<close>, \<open>dq\<close> when \<open>dp = 0\<close>, and \<open>-q[i]\<close> when
  \<open>dp < 0\<close>; on the ask side it is \<open>-q[i]\<close> when \<open>dp < 0\<close>, \<open>dq\<close> when \<open>dp = 0\<close>, and
  \<open>q[i]\<close> when \<open>dp > 0\<close>.
\<close>

theorem side_flow_three_branch:
  assumes wf: "wf_frame df"
    and p: "getcol df (px_name s level) = Inr p"
    and q: "getcol df (sz_name s level) = Inr q"
    and i: "0 < i" "i < length (index df)"
  shows "\<exists>f. side_flow df s level = Inr f \<and> length f = length (index df) \<and>
    (let dp = fl_sub (p ! i) (p ! (i - 1)); dq = fl_sub (q ! i) (q ! (i - 1)) in
      (s = Bid \<longrightarrow> (gt0 dp \<longrightarrow> f ! i = q ! i) \<and> (eq0 dp \<longrightarrow> f ! i = dq) \<and>
         (lt0 dp \<longrightarrow> f ! i = fl_neg (q ! i))) \<and>
      (s = Ask \<longrightarrow> (lt0 dp \<longrightarrow> f ! i = fl_neg (q ! i)) \<and> (eq0 dp \<longrightarrow> f ! i = dq) \<and>
         (gt0 dp \<longrightarrow> f ! i = q ! i)))"
proof -
  have lp: "length p = length (index df)" using wf p by (rule wf_frame_col_length)
  have lq: "length q = length (index df)" using wf q by (rule wf_frame_col_length)
  have f: "side_flow df s level = Inr (flow_series s p q)" using p q by (rule side_flow_Inr)
  have n: "flow_series s p q ! i =
      flow_cell s (fl_sub (p ! i) (p ! (i - 1))) (q ! i) (fl_sub (q ! i) (q ! (i - 1)))"
    using i lp lq by (simp add: flow_series_nth diff_nth)
  have len: "length (flow_series s p q) = length (index df)" using lp lq by simp
  show ?thesis
  proof (intro exI conjI)
    show "side_flow df s level = Inr (flow_series s p q)" by (rule f)
    show "length (flow_series s p q) = length (index df)" by (rule len)
    show "let dp = fl_sub (p ! i) (p ! (i - 1)); dq = fl_sub (q ! i) (q ! (i - 1)) in
      (s = Bid \<longrightarrow> (gt0 dp \<longrightarrow> flow_series s p q ! i = q ! i) \<and>
         (eq0 dp \<longrightarrow> flow_series s p q ! i = dq) \<and>
         (lt0 dp \<longrightarrow> flow_series s p q ! i = fl_neg (q ! i))) \<and>
      (s = Ask \<longrightarrow> (lt0 dp \<longrightarrow> flow_series s p q ! i = fl_neg (q ! i)) \<and>
         (eq0 dp \<longrightarrow> flow_series s p q ! i = dq) \<and>
         (gt0 dp \<longrightarrow> flow_series s p q ! i = q ! i))"
      unfolding Let_def n by (rule flow_cell_rule)
  qed
qed

theorem side_flow_three_branch_witness:
  "wf_frame ex_quotes \<and>
   (\<exists>f. side_flow ex_quotes Bid 0 = Inr f \<and> f ! 1 = Fin 7 \<and> f ! 2 = Fin (- 3) \<and>
      f ! 3 = Fin (- 6)) \<and>
   (\<exists>f. side_flow ex_quotes Ask 0 = Inr f \<and> f ! 1 = Fin (- 3) \<and> f ! 2 = Fin 6 \<and>
      f ! 3 = Fin 2)"
proof -
  have len: "length (index ex_quotes) = 4" by (simp add: ex_quotes_def)
  note b = side_flow_three_branch [OF ex_quotes_wf ex_quotes_cols(1) ex_quotes_cols(2)]
  note a = side_flow_three_branch [OF ex_quotes_wf ex_quotes_cols(3) ex_quotes_cols(4)]
  have b1: "0 < (1::nat)" "1 < length (index ex_quotes)" by (simp_all add: len)
  have b2: "0 < (2::nat)" "2 < length (index ex_quotes)" by (simp_all add: len)
  have b3: "0 < (3::nat)" "3 < length (index ex_quotes)" by (simp_all add: len)
  from b [OF b1] b [OF b2] b [OF b3]
  have B: "\<exists>f. side_flow ex_quotes Bid 0 = Inr f \<and> f ! 1 = Fin 7 \<and> f ! 2 = Fin (- 3) \<and>
      f ! 3 = Fin (- 6)"
    by (auto simp: Let_def)
  from a [OF b1] a [OF b2] a [OF b3]
  have A: "\<exists>f. side_flow ex_quotes Ask 0 = Inr f \<and> f ! 1 = Fin (- 3) \<and> f ! 2 = Fin 6 \<and>
      f ! 3 = Fin 2"
    by (auto simp: Let_def)
  from ex_quotes_wf A B show ?thesis by blast
qed

subsection \<open>The first row of a sequence\<close>

text \<open>
  C2 fails on the code. The first row's \<open>dp\<close> is NaN, both comparisons of the nested
  \<open>np.where\<close> are false on it, and the row gets the value of the last branch: \<open>-q\<close> on the
  bid side and \<open>q\<close> on the ask side, a number where the size is one. On the example book
  the first message's OFI is \<open>-13\<close>, and the first bar (buckets of width 10) is
  \<open>-13 + 10 = -3\<close>: the first row is summed with the others.
\<close>

theorem first_row_flow_is_a_number:
  "side_flow ex_quotes Bid 0 = Inr [Fin (- 5), Fin 7, Fin (- 3), Fin (- 6)] \<and>
   side_flow ex_quotes Ask 0 = Inr [Fin 8, Fin (- 3), Fin 6, Fin 2] \<and>
   result_col (add_level_ofi ex_book) ''ofi_00'' = Some [Fin (- 13), Fin 10, Fin (- 9)] \<and>
   snd (aggregate_ofi ex_msgs 10 False) =
     Inr \<lparr>tcols = ofi_cols,
          trows = [(0, replicate 10 (Fin (- 3))), (10, replicate 10 (Fin (- 9)))]\<rparr>"
proof -
  have 1: "side_flow ex_quotes Bid 0 = Inr [Fin (- 5), Fin 7, Fin (- 3), Fin (- 6)]"
    by (simp add: side_flow_def ex_quotes_cols flow_series_def)
  have 2: "side_flow ex_quotes Ask 0 = Inr [Fin 8, Fin (- 3), Fin 6, Fin 2]"
    by (simp add: side_flow_def ex_quotes_cols flow_series_def)
  have "result_col (add_level_ofi ex_book) (ofi_name 0) = Some (ofi_of ex_book 0)"
    by (simp add: result_col_def add_level_ofi_eq [OF ex_book_has] fold_ofi_col [OF zero_level])
  then have 3: "result_col (add_level_ofi ex_book) ''ofi_00'' = Some [Fin (- 13), Fin 10, Fin (- 9)]"
    by (simp add: ofi_name_0 uniform_book(7) [OF ex_book_cols zero_level] ex_flows)
  from 1 2 3 ex_msgs_bar show ?thesis by blast
qed

subsection \<open>What the stages do to their input\<close>

text \<open>
  C3 fails on the code for the normalised aggregation. \<open>add_level_ofi\<close> works on a copy
  and \<open>aggregate_ofi\<close> with \<open>normalise=False\<close> only reads its argument, but with
  \<open>normalise=True\<close> the loop \<open>df['depth_NN'] = ...\<close> assigns into the caller's frame: after
  the call the frame has the ten depth columns it did not have before.
\<close>

theorem aggregate_ofi_mutates_input:
  "\<not> has_col ex_msgs (depth_name 0) \<and>
   has_col (fst (aggregate_ofi ex_msgs 10 True)) (depth_name 0) \<and>
   fst (aggregate_ofi ex_msgs 10 True) \<noteq> ex_msgs \<and>
   fst (aggregate_ofi ex_msgs 10 False) = ex_msgs"
proof -
  have "map_of (cols ex_msgs) (depth_name 0) = map_of (cols ex_book) (depth_name 0)"
    unfolding ex_msgs_def msgs_of_eq [OF ex_book_has] using depth_not_derived
    by (rule fold_level_other)
  moreover have "map_of (cols ex_book) (depth_name 0) = None"
    using depth_not_book [of 0 LEVELS]
    by (simp add: map_of_eq_None_iff ex_book_colnames [unfolded colnames_def, symmetric])
  ultimately have 1: "\<not> has_col ex_msgs (depth_name 0)" by (simp add: has_col_def)
  have f: "fst (aggregate_ofi ex_msgs 10 True) = fold depth_out LEVELS ex_msgs"
    using ex_wf(1) ex_has(1,2) w10 by (rule fst_aggregate_normalised)
  have 2: "has_col (fst (aggregate_ofi ex_msgs 10 True)) (depth_name 0)"
    unfolding f by (simp add: has_col_def fold_depth_col [OF zero_level])
  from 1 2 have 3: "fst (aggregate_ofi ex_msgs 10 True) \<noteq> ex_msgs" by auto
  have 4: "fst (aggregate_ofi ex_msgs 10 False) = ex_msgs"
    by (rule aggregate_ofi_keeps_input_unnormalised)
  from 1 2 3 4 show ?thesis by blast
qed

subsection \<open>Zero and missing divisors\<close>

text \<open>
  C4 as stated fails. Two messages at the timestamps 0 and 10, buckets of width 10; in
  the second message every size is zero, and the bid size fell from 5 at an unchanged
  price. The second bucket has the summed OFI \<open>-5\<close> on every level and the divisor \<open>0\<close>,
  and the normalised aggregation returns, without raising, a row of minus infinity for
  it.
\<close>

theorem zero_depth_bucket_is_minus_infinity:
  "snd (aggregate_ofi ex_zero_msgs 10 True) =
     Inr \<lparr>tcols = ofi_cols,
          trows = [(0, replicate 10 (Fin (- 2))), (10, replicate 10 NInf)]\<rparr>"
  by (rule ex_zero_result)

text \<open>
  C4, as amended. The normalised aggregation raises nothing on a zero or missing
  divisor. A row of the result whose bucket has no row of OFI sums (some level has no
  OFI value in it that is not missing) holds only missing values, whatever the divisor,
  and so does a row whose bucket has no divisor (no depth mean for it) or the divisor
  NaN. A row whose bucket has a row of OFI sums and the divisor zero holds, level by
  level, plus infinity where the summed OFI is positive, minus infinity where it is
  negative, and a missing value where it is zero. The buckets with a row of OFI sums are
  the rows of the code's table \<open>bar\<close>, those with a divisor the rows of its table
  \<open>depth\<close>, and the divisor is the entry of its series \<open>depth_bar\<close>.
\<close>

theorem zero_divisor_gives_infinity:
  assumes wf: "wf_frame df" and h: "has_ofi_cols df" and hs: "has_size_cols df" and w: "0 < w"
  shows "\<exists>df' res bar depth. aggregate_ofi df w True = (df', Inr res) \<and>
      ofi_bar df w = Inr bar \<and> depth_table df' w = Inr depth \<and>
      (\<forall>b. has_bar df w b \<longleftrightarrow> b \<in> set (labels bar)) \<and>
      (\<forall>b. has_depth df w b \<longleftrightarrow> b \<in> set (labels depth)) \<and>
      (\<forall>b. has_bar df w b \<longrightarrow> map_of (trows bar) b = Some (spec_bar_row df w b)) \<and>
      (\<forall>b. has_depth df w b \<longrightarrow> map_of (depth_bar_of depth) b = Some (spec_divisor df w b)) \<and>
      (\<forall>r \<in> set (trows res).
          (\<not> has_bar df w (fst r) \<longrightarrow> snd r = replicate 10 NaN) \<and>
          (\<not> has_depth df w (fst r) \<longrightarrow> snd r = replicate 10 NaN) \<and>
          (has_bar df w (fst r) \<and> has_depth df w (fst r) \<and> spec_divisor df w (fst r) = NaN \<longrightarrow>
             snd r = replicate 10 NaN) \<and>
          (has_bar df w (fst r) \<and> has_depth df w (fst r) \<and> spec_divisor df w (fst r) = Fin 0 \<longrightarrow>
             snd r = map (\<lambda>v. if gt0 v then PInf else if lt0 v then NInf else NaN)
                       (spec_bar_row df w (fst r))))"
proof -
  from aggregate_ofi_normalised [OF wf h hs w] obtain res where
    agg: "aggregate_ofi df w True = (fold depth_out LEVELS df, Inr res)"
    and rows: "\<forall>r \<in> set (trows res). snd r = norm_row df w (fst r)"
    by blast
  from aggregate_ofi_tables [OF wf h hs w] obtain bar depth where
    ob: "ofi_bar df w = Inr bar"
    and dt: "depth_table (fold depth_out LEVELS df) w = Inr depth"
    and lb: "set (labels bar) = {b. has_bar df w b}"
    and ld: "set (labels depth) = {b. has_depth df w b}"
    and mb: "\<forall>b. map_of (trows bar) b =
          (if has_bar df w b then Some (spec_bar_row df w b) else None)"
    and md: "\<forall>b. map_of (depth_bar_of depth) b =
          (if has_depth df w b then Some (spec_divisor df w b) else None)"
    by blast
  have z: "fl_div v (Fin 0) = (if gt0 v then PInf else if lt0 v then NInf else NaN)" for v
    by (cases v) simp_all
  have l: "length (spec_bar_row df w b) = 10" for b
    by (simp add: spec_bar_row_def LEVELS_props(3))
  have nan: "map (\<lambda>v. fl_div v NaN) (spec_bar_row df w b) = replicate 10 NaN" for b
  proof -
    have "fl_div v NaN = NaN" for v by (cases v) simp_all
    then have "map (\<lambda>v. fl_div v NaN) (spec_bar_row df w b) =
        replicate (length (spec_bar_row df w b)) NaN"
      by (simp add: map_replicate_const)
    then show ?thesis by (simp add: l)
  qed
  have 1: "\<forall>b. has_bar df w b \<longleftrightarrow> b \<in> set (labels bar)" by (simp add: lb)
  have 2: "\<forall>b. has_depth df w b \<longleftrightarrow> b \<in> set (labels depth)" by (simp add: ld)
  have 3: "\<forall>b. has_bar df w b \<longrightarrow> map_of (trows bar) b = Some (spec_bar_row df w b)"
    by (simp add: mb)
  have 4: "\<forall>b. has_depth df w b \<longrightarrow> map_of (depth_bar_of depth) b = Some (spec_divisor df w b)"
    by (simp add: md)
  have 5: "\<forall>r \<in> set (trows res).
      (\<not> has_bar df w (fst r) \<longrightarrow> snd r = replicate 10 NaN) \<and>
      (\<not> has_depth df w (fst r) \<longrightarrow> snd r = replicate 10 NaN) \<and>
      (has_bar df w (fst r) \<and> has_depth df w (fst r) \<and> spec_divisor df w (fst r) = NaN \<longrightarrow>
         snd r = replicate 10 NaN) \<and>
      (has_bar df w (fst r) \<and> has_depth df w (fst r) \<and> spec_divisor df w (fst r) = Fin 0 \<longrightarrow>
         snd r = map (\<lambda>v. if gt0 v then PInf else if lt0 v then NInf else NaN)
                   (spec_bar_row df w (fst r)))"
    using rows by (simp add: norm_row_def z nan)
  from agg ob dt 1 2 3 4 5 show ?thesis by blast
qed

theorem zero_divisor_gives_infinity_witness:
  "wf_frame ex_zero_msgs \<and> has_ofi_cols ex_zero_msgs \<and> has_size_cols ex_zero_msgs \<and>
   (0::int) < 10 \<and> has_bar ex_zero_msgs 10 10 \<and> has_depth ex_zero_msgs 10 10 \<and>
   spec_divisor ex_zero_msgs 10 10 = Fin 0 \<and>
   (\<exists>df' res. aggregate_ofi ex_zero_msgs 10 True = (df', Inr res) \<and>
      (10, replicate 10 NInf) \<in> set (trows res)) \<and>
   replicate 10 NInf =
     map (\<lambda>v. if gt0 v then PInf else if lt0 v then NInf else NaN) (spec_bar_row ex_zero_msgs 10 10) \<and>
   wf_frame ex_drop_msgs \<and> has_ofi_cols ex_drop_msgs \<and> has_size_cols ex_drop_msgs \<and>
   \<not> has_bar ex_drop_msgs 10 10 \<and> has_depth ex_drop_msgs 10 10 \<and>
   spec_divisor ex_drop_msgs 10 10 = Fin 0 \<and>
   (\<exists>df' res bar depth. aggregate_ofi ex_drop_msgs 10 True = (df', Inr res) \<and>
      ofi_bar ex_drop_msgs 10 = Inr bar \<and> depth_table df' 10 = Inr depth \<and>
      10 \<notin> set (labels bar) \<and> map_of (depth_bar_of depth) 10 = Some (Fin 0) \<and>
      trows res = [(10, replicate 10 NaN)])"
proof -
  from zero_divisor_gives_infinity [OF ex_wf(2) ex_has(3,4) w10] obtain df' res where
    agg: "aggregate_ofi ex_zero_msgs 10 True = (df', Inr res)"
    and rows: "\<forall>r \<in> set (trows res).
      has_bar ex_zero_msgs 10 (fst r) \<and> has_depth ex_zero_msgs 10 (fst r) \<and>
        spec_divisor ex_zero_msgs 10 (fst r) = Fin 0 \<longrightarrow>
      snd r = map (\<lambda>v. if gt0 v then PInf else if lt0 v then NInf else NaN)
                (spec_bar_row ex_zero_msgs 10 (fst r))"
    by blast
  from agg ex_zero_result have "trows res = [(0, replicate 10 (Fin (- 2))), (10, replicate 10 NInf)]"
    by auto
  then have r: "(10, replicate 10 NInf) \<in> set (trows res)" by simp
  with rows ex_zero_spec(2,3,4) have "replicate 10 NInf =
      map (\<lambda>v. if gt0 v then PInf else if lt0 v then NInf else NaN) (spec_bar_row ex_zero_msgs 10 10)"
    by fastforce
  with agg r have A: "(\<exists>df' res. aggregate_ofi ex_zero_msgs 10 True = (df', Inr res) \<and>
      (10, replicate 10 NInf) \<in> set (trows res)) \<and>
    replicate 10 NInf =
      map (\<lambda>v. if gt0 v then PInf else if lt0 v then NInf else NaN) (spec_bar_row ex_zero_msgs 10 10)"
    by blast
  from zero_divisor_gives_infinity [OF ex_drop_wf ex_drop_has w10] obtain df2 res2 bar depth where
    agg2: "aggregate_ofi ex_drop_msgs 10 True = (df2, Inr res2)"
    and ob: "ofi_bar ex_drop_msgs 10 = Inr bar" and dt: "depth_table df2 10 = Inr depth"
    and lb: "\<forall>b. has_bar ex_drop_msgs 10 b \<longleftrightarrow> b \<in> set (labels bar)"
    and md: "\<forall>b. has_depth ex_drop_msgs 10 b \<longrightarrow>
        map_of (depth_bar_of depth) b = Some (spec_divisor ex_drop_msgs 10 b)"
    by blast
  from lb ex_drop_spec(1) have nb: "10 \<notin> set (labels bar)" by blast
  from md ex_drop_spec(2,3) have dz: "map_of (depth_bar_of depth) 10 = Some (Fin 0)" by auto
  from agg2 ex_drop_result have tr: "trows res2 = [(10, replicate 10 NaN)]" by auto
  from agg2 ob dt nb dz tr have B: "\<exists>df' res bar depth.
      aggregate_ofi ex_drop_msgs 10 True = (df', Inr res) \<and>
      ofi_bar ex_drop_msgs 10 = Inr bar \<and> depth_table df' 10 = Inr depth \<and>
      10 \<notin> set (labels bar) \<and> map_of (depth_bar_of depth) 10 = Some (Fin 0) \<and>
      trows res = [(10, replicate 10 NaN)]"
    by blast
  from A B ex_wf(2) ex_has(3,4) ex_zero_spec(2,3,4) ex_drop_wf ex_drop_has ex_drop_spec w10
  show ?thesis by blast
qed

subsection \<open>Bar sums\<close>



subsection \<open>The normalisation divisor\<close>

text \<open>
  C6. In the normalised aggregation of a well-formed frame that has the OFI and size
  columns, every row of a bucket that has both a sum and a depth is the bucket's row of
  summed OFI with each level divided by one and the same divisor, \<open>spec_divisor\<close>: the
  per-message depth \<open>bid size + ask size\<close> of a level, averaged over the bucket's messages
  (mean, not sum), the ten level means averaged, and the result halved. Where the sizes
  are finite this is the real number \<open>divisor_real\<close>,
  \<open>((\<Sum>m. (\<Sum>i. depth m i) / n) / 10) / 2\<close>, for every bucket that holds a message; where
  the OFI values are finite too, every row of the result is such a row and every message
  falls in the bucket of one.
\<close>

theorem normalisation_divisor:
  assumes wf: "wf_frame df" and h: "has_ofi_cols df" and hs: "has_size_cols df" and w: "0 < w"
  shows "\<exists>df' res. aggregate_ofi df w True = (df', Inr res) \<and> tcols res = ofi_cols \<and>
      (\<forall>r \<in> set (trows res). has_bar df w (fst r) \<and> has_depth df w (fst r) \<longrightarrow>
          snd r = map (\<lambda>v. fl_div v (spec_divisor df w (fst r))) (spec_bar_row df w (fst r))) \<and>
      (finite_sizes df \<longrightarrow>
          (\<forall>b. (\<exists>t \<in> set (ts_event df). in_bucket w b t) \<longrightarrow>
              spec_divisor df w b = Fin (divisor_real df w b))) \<and>
      (finite_sizes df \<and> finite_ofi df \<longrightarrow>
          (\<forall>r \<in> set (trows res). has_bar df w (fst r) \<and> has_depth df w (fst r)) \<and>
          (\<forall>t \<in> set (ts_event df). \<exists>r \<in> set (trows res). in_bucket w (fst r) t))"
proof -
  from aggregate_ofi_normalised [OF wf h hs w] obtain res where
    agg: "aggregate_ofi df w True = (fold depth_out LEVELS df, Inr res)"
    and tc: "tcols res = ofi_cols"
    and ls: "set (labels res) = {b. has_bar df w b \<or> has_depth df w b}"
    and rows: "\<forall>r \<in> set (trows res). snd r = norm_row df w (fst r)"
    by blast
  have 1: "\<forall>r \<in> set (trows res). has_bar df w (fst r) \<and> has_depth df w (fst r) \<longrightarrow>
      snd r = map (\<lambda>v. fl_div v (spec_divisor df w (fst r))) (spec_bar_row df w (fst r))"
    using rows by (simp add: norm_row_def)
  have 2: "\<forall>b. (\<exists>t \<in> set (ts_event df). in_bucket w b t) \<longrightarrow>
      spec_divisor df w b = Fin (divisor_real df w b)" if "finite_sizes df"
    using spec_divisor_finite(2) [OF wf hs that] by blast
  have 3: "(\<forall>r \<in> set (trows res). has_bar df w (fst r) \<and> has_depth df w (fst r)) \<and>
      (\<forall>t \<in> set (ts_event df). \<exists>r \<in> set (trows res). in_bucket w (fst r) t)"
    if f: "finite_sizes df \<and> finite_ofi df"
  proof -
    have both: "has_bar df w b \<and> has_depth df w b"
      if g: "b \<in> set (bin_labels w (ts_event df))" and t: "t \<in> set (ts_event df)" "in_bucket w b t"
      for b t
      using has_bar_finite [OF wf h _ g t] has_depth_finite [OF wf hs _ g t] f by blast
    have A: "has_bar df w (fst r) \<and> has_depth df w (fst r)" if r: "r \<in> set (trows res)" for r
    proof -
      from r have "fst r \<in> set (labels res)" by (simp add: labels_def)
      with ls have d: "has_bar df w (fst r) \<or> has_depth df w (fst r)" by simp
      then have g: "fst r \<in> set (bin_labels w (ts_event df))"
        by (auto simp: has_bar_def has_depth_def)
      from d obtain t where "t \<in> set (ts_event df)" "in_bucket w (fst r) t"
        using has_bar_message [OF wf] has_depth_message [OF wf] by blast
      with g show ?thesis by (rule both)
    qed
    have B: "\<exists>r \<in> set (trows res). in_bucket w (fst r) t" if t: "t \<in> set (ts_event df)" for t
    proof -
      from bin_labels_cover [OF w t] obtain b where
        b: "b \<in> set (bin_labels w (ts_event df))" "in_bucket w b t" by blast
      from both [OF b(1) t b(2)] ls have "b \<in> set (labels res)" by simp
      then obtain r where "r \<in> set (trows res)" "fst r = b" by (auto simp: labels_def)
      with b(2) show ?thesis by blast
    qed
    from A B show ?thesis by blast
  qed
  from agg tc 1 2 3 show ?thesis by blast
qed

theorem normalisation_divisor_witness:
  "wf_frame ex_msgs \<and> has_ofi_cols ex_msgs \<and> has_size_cols ex_msgs \<and> (0::int) < 10 \<and>
   finite_sizes ex_msgs \<and> finite_ofi ex_msgs \<and>
   (\<exists>df' res. aggregate_ofi ex_msgs 10 True = (df', Inr res) \<and> tcols res = ofi_cols \<and>
      (\<exists>r \<in> set (trows res). in_bucket 10 (fst r) 0 \<and>
         snd r = map (\<lambda>v. fl_div v (spec_divisor ex_msgs 10 (fst r)))
                   (spec_bar_row ex_msgs 10 (fst r)))) \<and>
   spec_divisor ex_msgs 10 0 = Fin (23 / 4)"
proof -
  from normalisation_divisor [OF ex_wf(1) ex_has(1,2) w10] obtain df' res where
    a: "aggregate_ofi ex_msgs 10 True = (df', Inr res)" "tcols res = ofi_cols"
    and rows: "\<forall>r \<in> set (trows res). has_bar ex_msgs 10 (fst r) \<and> has_depth ex_msgs 10 (fst r) \<longrightarrow>
      snd r = map (\<lambda>v. fl_div v (spec_divisor ex_msgs 10 (fst r))) (spec_bar_row ex_msgs 10 (fst r))"
    and d: "finite_sizes ex_msgs \<longrightarrow>
      (\<forall>b. (\<exists>t \<in> set (ts_event ex_msgs). in_bucket 10 b t) \<longrightarrow>
         spec_divisor ex_msgs 10 b = Fin (divisor_real ex_msgs 10 b))"
    and f: "finite_sizes ex_msgs \<and> finite_ofi ex_msgs \<longrightarrow>
      (\<forall>r \<in> set (trows res). has_bar ex_msgs 10 (fst r) \<and> has_depth ex_msgs 10 (fst r)) \<and>
      (\<forall>t \<in> set (ts_event ex_msgs). \<exists>r \<in> set (trows res). in_bucket 10 (fst r) t)"
    by blast
  have t: "0 \<in> set (ts_event ex_msgs)" by (simp add: ex_msgs_index)
  moreover have "in_bucket 10 0 0" by (simp add: in_bucket_def)
  ultimately have "spec_divisor ex_msgs 10 0 = Fin (divisor_real ex_msgs 10 0)"
    using d ex_finite(2) by blast
  then have s: "spec_divisor ex_msgs 10 0 = Fin (23 / 4)" by (simp add: ex_msgs_divisor)
  from f ex_finite t obtain r where r: "r \<in> set (trows res)" "in_bucket 10 (fst r) 0"
    "has_bar ex_msgs 10 (fst r)" "has_depth ex_msgs 10 (fst r)"
    by blast
  with rows have "snd r = map (\<lambda>v. fl_div v (spec_divisor ex_msgs 10 (fst r)))
      (spec_bar_row ex_msgs 10 (fst r))"
    by blast
  with r(1,2) have "\<exists>r \<in> set (trows res). in_bucket 10 (fst r) 0 \<and>
      snd r = map (\<lambda>v. fl_div v (spec_divisor ex_msgs 10 (fst r))) (spec_bar_row ex_msgs 10 (fst r))"
    by blast
  with a s ex_wf(1) ex_has(1,2) ex_finite show ?thesis by auto
qed

subsection \<open>Buckets of one aggregation only\<close>

text \<open>
  C7 as stated fails. Two messages at the timestamps 0 and 10, buckets of width 10; the
  bid size of the first message is missing on every level. No bucket has a summed OFI
  (the table of sums is empty), the second bucket has a depth mean, and the result has a
  row for the second bucket, all missing, instead of no row.
\<close>

theorem bucket_of_depth_only_is_a_row:
  "ofi_bar ex_gap_msgs 10 = Inr \<lparr>tcols = ofi_cols, trows = []\<rparr> \<and>
   depth_table (fst (aggregate_ofi ex_gap_msgs 10 True)) 10 =
     Inr \<lparr>tcols = depth_cols, trows = [(10, replicate 10 (Fin 2))]\<rparr> \<and>
   snd (aggregate_ofi ex_gap_msgs 10 True) =
     Inr \<lparr>tcols = ofi_cols, trows = [(10, replicate 10 NaN)]\<rparr>"
  by (rule ex_gap_result)

text \<open>
  C7, as amended. In the normalised aggregation the buckets of the OFI sum and the
  buckets of the depth mean are combined by the union of their timestamps, one row
  each: a bucket that only one of the two has is a row of the result all the same, and
  every value of that row is missing.
\<close>

theorem normalised_rows_are_the_union:
  assumes wf: "wf_frame df" and h: "has_ofi_cols df" and hs: "has_size_cols df" and w: "0 < w"
  shows "\<exists>df' res bar depth. aggregate_ofi df w True = (df', Inr res) \<and>
      ofi_bar df w = Inr bar \<and> depth_table df' w = Inr depth \<and>
      set (labels res) = set (labels bar) \<union> set (labels depth) \<and> distinct (labels res) \<and>
      (\<forall>r \<in> set (trows res). fst r \<notin> set (labels bar) \<inter> set (labels depth) \<longrightarrow>
          snd r = replicate 10 NaN)"
proof -
  from aggregate_ofi_normalised [OF wf h hs w] obtain res where
    agg: "aggregate_ofi df w True = (fold depth_out LEVELS df, Inr res)"
    and d: "distinct (labels res)"
    and ls: "set (labels res) = {b. has_bar df w b \<or> has_depth df w b}"
    and rows: "\<forall>r \<in> set (trows res). snd r = norm_row df w (fst r)"
    by blast
  from ofi_bar_labels [OF wf h w] obtain bar where
    bar: "ofi_bar df w = Inr bar" "set (labels bar) = {b. has_bar df w b}" by blast
  from depth_table_labels [OF wf hs] obtain depth where
    depth: "depth_table (fold depth_out LEVELS df) w = Inr depth"
      "set (labels depth) = {b. has_depth df w b}" by blast
  have u: "set (labels res) = set (labels bar) \<union> set (labels depth)"
    unfolding ls bar(2) depth(2) by blast
  have n: "\<forall>r \<in> set (trows res). fst r \<notin> set (labels bar) \<inter> set (labels depth) \<longrightarrow>
      snd r = replicate 10 NaN"
    using rows by (simp add: norm_row_def bar(2) depth(2))
  from agg bar(1) depth(1) u d n show ?thesis by blast
qed

theorem normalised_rows_are_the_union_witness:
  "wf_frame ex_gap_msgs \<and> has_ofi_cols ex_gap_msgs \<and> has_size_cols ex_gap_msgs \<and>
   (0::int) < 10 \<and>
   (\<exists>df' res bar depth. aggregate_ofi ex_gap_msgs 10 True = (df', Inr res) \<and>
      ofi_bar ex_gap_msgs 10 = Inr bar \<and> depth_table df' 10 = Inr depth \<and>
      set (labels res) = set (labels bar) \<union> set (labels depth) \<and>
      10 \<notin> set (labels bar) \<and> 10 \<in> set (labels depth) \<and>
      (10, replicate 10 NaN) \<in> set (trows res))"
proof -
  from normalised_rows_are_the_union [OF ex_wf(3) ex_has(5,6) w10] obtain df' res bar depth where
    agg: "aggregate_ofi ex_gap_msgs 10 True = (df', Inr res)"
    and bar: "ofi_bar ex_gap_msgs 10 = Inr bar"
    and depth: "depth_table df' 10 = Inr depth"
    and u: "set (labels res) = set (labels bar) \<union> set (labels depth)"
    and n: "\<forall>r \<in> set (trows res). fst r \<notin> set (labels bar) \<inter> set (labels depth) \<longrightarrow>
      snd r = replicate 10 NaN"
    by blast
  from bar ex_gap_result have b: "10 \<notin> set (labels bar)" by (auto simp: labels_def)
  from agg depth ex_gap_result have d: "10 \<in> set (labels depth)" by (auto simp: labels_def)
  from u d have "10 \<in> set (labels res)" by simp
  then obtain r where r: "r \<in> set (trows res)" "fst r = 10" by (auto simp: labels_def)
  with n b have "snd r = replicate 10 NaN" by auto
  with r(2) have "r = (10, replicate 10 NaN)" by (metis prod.collapse)
  with r(1) have "(10, replicate 10 NaN) \<in> set (trows res)" by simp
  with agg bar depth u b d ex_wf(3) ex_has(5,6) show ?thesis by auto
qed

subsection \<open>The integrated series\<close>

text \<open>
  C8 as stated fails. A table of three bars and two columns. Asked for no component, the
  fit returns none, and taking the first of them raises \<open>IndexError\<close>; asked for three
  components, which the table has bars for but not columns, the fit raises and so does
  the call. Neither call returns a series.
\<close>

theorem no_component_no_series:
  "length (trows ex_bar) = 3 \<and> length (tcols ex_bar) = 2 \<and>
   integrated_ofi ex_pca ex_bar 0 = Inl IndexError \<and>
   integrated_ofi ex_pca ex_bar 3 = Inl FitError"
  by (simp add: integrated_ofi_raises ex_pca_bar) (simp add: ex_bar_def)

text \<open>
  C8, as amended. What the call does follows what the fit returns. When the fit raises,
  the call raises the same error; when the fit returns no component (as it does for
  \<open>n_components = 0\<close>, returning as many components as it is asked for), the call raises
  \<open>IndexError\<close>. When the fit returns at least one component and the first of them,
  \<open>w0\<close>, has one finite entry per column of the bar table and is not the zero vector
  (what a fitted principal direction is), \<open>integrated_ofi\<close> rescales it to
  \<open>w = w0 / \<Sum>|w0|\<close>, whose absolute values sum to exactly 1, and returns for every bar,
  under the bar's timestamp, the dot product of the bar's row with \<open>w\<close>, the plain sum of
  products where the row is finite. The fit itself is scikit-learn's: which direction
  it returns, with which sign, and for which inputs it raises is taken as given.
\<close>

theorem integrated_ofi_l1_projection:
  "(\<forall>e. pca_fit (map snd (trows bar)) n_components = Inl e \<longrightarrow>
       integrated_ofi pca_fit bar n_components = Inl e) \<and>
   (pca_fit (map snd (trows bar)) n_components = Inr [] \<longrightarrow>
       integrated_ofi pca_fit bar n_components = Inl IndexError) \<and>
   (n_components = 0 \<and>
    (\<forall>cs. pca_fit (map snd (trows bar)) n_components = Inr cs \<longrightarrow> length cs = n_components) \<longrightarrow>
       (\<exists>e. integrated_ofi pca_fit bar n_components = Inl e)) \<and>
   (\<forall>w0 others. pca_fit (map snd (trows bar)) n_components = Inr (w0 # others) \<and>
       list_all is_fin w0 \<and> list_ex (\<lambda>x. \<not> eq0 x) w0 \<and> length w0 = length (tcols bar) \<longrightarrow>
       (\<exists>w. integrated_ofi pca_fit bar n_components =
                Inr (map (\<lambda>r. (fst r, dot (snd r) w)) (trows bar)) \<and>
          w = map (\<lambda>x. Fin (fl_val x / sum_list (map (\<lambda>y. \<bar>fl_val y\<bar>) w0))) w0 \<and>
          l1_norm w = Fin 1 \<and>
          (\<forall>r \<in> set (trows bar). list_all is_fin (snd r) \<longrightarrow>
             dot (snd r) w = Fin (sum_list (map2 (*) (map fl_val (snd r)) (map fl_val w))))))"
proof -
  let ?X = "map snd (trows bar)"
  have 1: "\<forall>e. pca_fit ?X n_components = Inl e \<longrightarrow> integrated_ofi pca_fit bar n_components = Inl e"
    by (simp add: integrated_ofi_def)
  have 2: "pca_fit ?X n_components = Inr [] \<longrightarrow>
      integrated_ofi pca_fit bar n_components = Inl IndexError"
    by (simp add: integrated_ofi_def)
  have 3: "\<exists>e. integrated_ofi pca_fit bar n_components = Inl e"
    if z: "n_components = 0"
      and s: "\<forall>cs. pca_fit ?X n_components = Inr cs \<longrightarrow> length cs = n_components"
  proof (cases "pca_fit ?X n_components")
    case (Inl e)
    with 1 show ?thesis by blast
  next
    case (Inr cs)
    with s z have "cs = []" by simp
    with Inr 2 show ?thesis by blast
  qed
  have 4: "\<exists>w. integrated_ofi pca_fit bar n_components =
                Inr (map (\<lambda>r. (fst r, dot (snd r) w)) (trows bar)) \<and>
      w = map (\<lambda>x. Fin (fl_val x / sum_list (map (\<lambda>y. \<bar>fl_val y\<bar>) w0))) w0 \<and>
      l1_norm w = Fin 1 \<and>
      (\<forall>r \<in> set (trows bar). list_all is_fin (snd r) \<longrightarrow>
         dot (snd r) w = Fin (sum_list (map2 (*) (map fl_val (snd r)) (map fl_val w))))"
    if fit: "pca_fit ?X n_components = Inr (w0 # others)"
      and fin: "list_all is_fin w0" and nz: "list_ex (\<lambda>x. \<not> eq0 x) w0"
      and len: "length w0 = length (tcols bar)" for w0 others
  proof -
    define w where "w = l1_normalise w0"
    have r: "integrated_ofi pca_fit bar n_components =
        Inr (map (\<lambda>r. (fst r, dot (snd r) w)) (trows bar))"
      by (simp add: integrated_ofi_def fit Let_def len w_def)
    note u = l1_unit [OF fin nz, folded w_def]
    have wf: "list_all is_fin w" unfolding u(2) by (simp add: list_all_iff)
    have d: "dot vs w = Fin (sum_list (map2 (*) (map fl_val vs) (map fl_val w)))"
      if "list_all is_fin vs" for vs
    proof -
      have "dot (map Fin (map fl_val vs)) (map Fin (map fl_val w)) =
          Fin (sum_list (map2 (*) (map fl_val vs) (map fl_val w)))"
        by (rule dot_Fin)
      then show ?thesis using fin_map [OF that] fin_map [OF wf] by simp
    qed
    from r u d show ?thesis by blast
  qed
  from 1 2 3 4 show ?thesis by blast
qed

theorem integrated_ofi_l1_projection_witness:
  "ex_pca (map snd (trows ex_bar)) 1 = Inr ([Fin (3 / 5), Fin (4 / 5)] # []) \<and>
   integrated_ofi ex_pca ex_bar 1 = Inr [(0, Fin 0), (10, Fin (25 / 7)), (20, Fin (50 / 7))] \<and>
   l1_norm [Fin (3 / 7), Fin (4 / 7)] = Fin 1 \<and>
   ex_pca (map snd (trows ex_bar)) 0 = Inr [] \<and>
   integrated_ofi ex_pca ex_bar 0 = Inl IndexError \<and>
   (\<exists>e. integrated_ofi ex_pca ex_bar 0 = Inl e) \<and>
   ex_pca (map snd (trows ex_bar)) 3 = Inl FitError \<and>
   integrated_ofi ex_pca ex_bar 3 = Inl FitError"
proof -
  note t1 = integrated_ofi_l1_projection [of ex_pca ex_bar 1]
  note t0 = integrated_ofi_l1_projection [of ex_pca ex_bar 0]
  note t3 = integrated_ofi_l1_projection [of ex_pca ex_bar 3]
  have p: "list_all is_fin [Fin (3 / 5), Fin (4 / 5)]"
    "list_ex (\<lambda>x. \<not> eq0 x) [Fin (3 / 5), Fin (4 / 5)]"
    "length [Fin (3 / 5), Fin (4 / 5)] = length (tcols ex_bar)"
    by (simp_all add: ex_bar_def)
  from t1 ex_pca_bar(2) p obtain w where
    w: "integrated_ofi ex_pca ex_bar 1 = Inr (map (\<lambda>r. (fst r, dot (snd r) w)) (trows ex_bar))"
      "w = map (\<lambda>x. Fin (fl_val x / sum_list (map (\<lambda>y. \<bar>fl_val y\<bar>) [Fin (3 / 5), Fin (4 / 5)])))
          [Fin (3 / 5), Fin (4 / 5)]"
      "l1_norm w = Fin 1"
    by blast
  from w(2) have e: "w = [Fin (3 / 7), Fin (4 / 7)]" by simp
  have a: "integrated_ofi ex_pca ex_bar 1 = Inr [(0, Fin 0), (10, Fin (25 / 7)), (20, Fin (50 / 7))]"
    unfolding w(1) e by (simp add: ex_bar_def dot_def fl_sum_def)
  from t0 ex_pca_bar(1) have b: "integrated_ofi ex_pca ex_bar 0 = Inl IndexError" by blast
  have "\<forall>cs. ex_pca (map snd (trows ex_bar)) 0 = Inr cs \<longrightarrow> length cs = 0"
    by (simp add: ex_pca_bar(1))
  with t0 have b': "\<exists>e. integrated_ofi ex_pca ex_bar 0 = Inl e" by blast
  from t3 ex_pca_bar(3) have c: "integrated_ofi ex_pca ex_bar 3 = Inl FitError" by blast
  from a b b' c w(3) e ex_pca_bar show ?thesis by simp
qed

subsection \<open>A requested symbol without rows\<close>

text \<open>
  C9. If a requested symbol has no row in the raw table, \<open>multi_asset_ofi\<close> returns no
  table: the call ends in an error, whatever the other symbols are. When the raw table
  is well formed and has the book columns, and the bucket width is positive, so that
  nothing raises before the symbols are looked at, the error is the symbol-not-found
  \<open>KeyError\<close> of a requested symbol that has no rows (the first such symbol of the list).
\<close>

theorem multi_asset_ofi_symbol_not_found:
  assumes "sy \<in> set symbols" and "sy \<notin> set (symbol raw_df)"
  shows "(\<exists>e. multi_asset_ofi raw_df symbols w normalise = Inl e) \<and>
    (wf_frame raw_df \<and> has_book_cols raw_df \<and> 0 < w \<longrightarrow>
       (\<exists>s'. s' \<in> set symbols \<and> s' \<notin> set (symbol raw_df) \<and>
          find (\<lambda>s. s \<notin> set (symbol raw_df)) symbols = Some s' \<and>
          multi_asset_ofi raw_df symbols w normalise = Inl (SymbolNotFound s')))"
proof -
  from symbol_loop_stops [OF assms] obtain e where
    "symbol_loop raw_df w normalise symbols [] = Inl e" by blast
  then have 1: "\<exists>e. multi_asset_ofi raw_df symbols w normalise = Inl e"
    by (simp add: multi_asset_ofi_def)
  have 2: "\<exists>s'. s' \<in> set symbols \<and> s' \<notin> set (symbol raw_df) \<and>
      find (\<lambda>s. s \<notin> set (symbol raw_df)) symbols = Some s' \<and>
      multi_asset_ofi raw_df symbols w normalise = Inl (SymbolNotFound s')"
    if c: "wf_frame raw_df \<and> has_book_cols raw_df \<and> 0 < w"
  proof -
    from assms obtain s' where f: "find (\<lambda>s. s \<notin> set (symbol raw_df)) symbols = Some s'"
      by (cases "find (\<lambda>s. s \<notin> set (symbol raw_df)) symbols") (auto simp: find_None_iff)
    then have m: "s' \<in> set symbols" "s' \<notin> set (symbol raw_df)"
      by (auto simp: find_Some_iff)
    from c have "symbol_loop raw_df w normalise symbols [] = Inl (SymbolNotFound s')"
      using f by (intro symbol_loop_first_missing) simp_all
    then have "multi_asset_ofi raw_df symbols w normalise = Inl (SymbolNotFound s')"
      by (simp add: multi_asset_ofi_def)
    with f m show ?thesis by blast
  qed
  from 1 2 show ?thesis by blast
qed

theorem multi_asset_ofi_symbol_not_found_witness:
  "''B'' \<in> set [''A'', ''B''] \<and> ''B'' \<notin> set (symbol ex_book) \<and> wf_frame ex_book \<and>
   has_book_cols ex_book \<and> (0::int) < 10 \<and>
   multi_asset_ofi ex_book [''A'', ''B''] 10 True = Inl (SymbolNotFound ''B'')"
proof -
  have a: "''B'' \<in> set [''A'', ''B'']" by simp
  have b: "''B'' \<notin> set (symbol ex_book)" by (simp add: ex_book_def)
  have f: "find (\<lambda>s. s \<notin> set (symbol ex_book)) [''A'', ''B''] = Some ''B''"
    by (simp add: ex_book_def)
  from multi_asset_ofi_symbol_not_found [OF a b, of 10 True] ex_book_wf ex_book_has f
  have "multi_asset_ofi ex_book [''A'', ''B''] 10 True = Inl (SymbolNotFound ''B'')"
    by auto
  with a b ex_book_wf ex_book_has show ?thesis by simp
qed

subsection \<open>The columns of the level-flow output\<close>

text \<open>
  C10 as stated fails on a frame that already has a column named \<open>ofi_00\<close>: the
  assignment \<open>out["ofi_00"] = ...\<close> replaces its values, so that input column is not
  carried over unchanged.
\<close>

theorem add_level_ofi_overwrites:
  "has_book_cols ex_rerun \<and>
   map_of (cols ex_rerun) ''ofi_00'' = Some [Fin 42, Fin 42, Fin 42] \<and>
   result_col (add_level_ofi ex_rerun) ''ofi_00'' = Some [Fin (- 13), Fin 10, Fin (- 9)]"
proof -
  have h: "has_book_cols ex_rerun" using ex_rerun_cols by (rule uniform_book_has)
  have "ofi_name 0 \<in> set all_derived_names"
    using zero_level by (auto simp: all_derived_names_def derived_names_def)
  with ex_book_fresh have "ofi_name 0 \<notin> set (colnames ex_book)" by blast
  then have "''ofi_00'' \<notin> fst ` set (cols ex_book)"
    by (simp add: colnames_def ofi_name_0)
  then have "map_of (cols ex_book) ''ofi_00'' = None"
    by (simp add: map_of_eq_None_iff)
  then have i: "map_of (cols ex_rerun) ''ofi_00'' = Some [Fin 42, Fin 42, Fin 42]"
    by (simp add: ex_rerun_def map_add_def)
  have "result_col (add_level_ofi ex_rerun) (ofi_name 0) = Some (ofi_of ex_rerun 0)"
    by (simp add: result_col_def add_level_ofi_eq [OF h] fold_ofi_col [OF zero_level])
  then have o: "result_col (add_level_ofi ex_rerun) ''ofi_00'' = Some [Fin (- 13), Fin 10, Fin (- 9)]"
    by (simp add: ofi_name_0 uniform_book(7) [OF ex_rerun_cols zero_level] ex_flows)
  from h i o show ?thesis by blast
qed

text \<open>
  C10, as amended. For a frame that has the price and size columns of the ten levels and
  no column named like one of the thirty derived columns, \<open>add_level_ofi\<close> returns a
  frame with the same row index, \<open>ts_event\<close> and \<open>symbol\<close>, whose columns are the input's
  columns, unchanged and in place, followed by exactly thirty new ones: \<open>of_bid_NN\<close>,
  \<open>of_ask_NN\<close> and \<open>ofi_NN\<close> for \<open>NN\<close> from 00 to 09, holding the level's bid flow, ask
  flow and their difference.
\<close>

theorem add_level_ofi_appends:
  assumes "has_book_cols df"
    and "set all_derived_names \<inter> set (colnames df) = {}"
  shows "\<exists>out new. add_level_ofi df = Inr out \<and>
      index out = index df \<and> ts_event out = ts_event df \<and> symbol out = symbol df \<and>
      cols out = cols df @ new \<and> map fst new = all_derived_names \<and> length new = 30 \<and>
      new = concat (map (new_cols df) LEVELS)"
proof -
  have dj: "set (concat (map derived_names LEVELS)) \<inter> fst ` set (cols df) = {}"
    using assms(2) by (simp add: all_derived_names_def colnames_def)
  have c: "cols (fold level_out LEVELS df) = cols df @ concat (map (new_cols df) LEVELS)"
    using LEVELS_props(1,2) dj by (rule fold_level_out_append)
  show ?thesis
    using add_level_ofi_eq [OF assms(1)] c
    by (simp add: length_concat_new map_fst_concat_new all_derived_names_def LEVELS_props(3))
qed

theorem add_level_ofi_appends_witness:
  "has_book_cols ex_book \<and> set all_derived_names \<inter> set (colnames ex_book) = {} \<and>
   (\<exists>out new. add_level_ofi ex_book = Inr out \<and> index out = index ex_book \<and>
      cols out = cols ex_book @ new \<and> length new = 30)"
  using add_level_ofi_appends [OF ex_book_has ex_book_fresh] ex_book_has ex_book_fresh
  by blast

end
